theory Spec2Isabelle
  imports Complex_Main
begin

section \<open>mixramp: MIXRAMP\_START / MIXRAMP\_END tags from per-chunk loudness\<close>

text \<open>
  The program (\<^verbatim>\<open>mixramp.c\<close>) reads an audio file in chunks of a tenth of a second,
  asks the ReplayGain engine for the loudness of each chunk and records, for each of
  fifteen dB thresholds, the first chunk (start table) and the last chunk (end table)
  that reaches the threshold. Two collaborators are outside the source tree: the decoder
  (libaudiofile) and the loudness engine (\<^verbatim>\<open>gain_analysis.h\<close>). Their answers are
  inputs of the model, collected in the record \<open>env\<close> below.
\<close>

subsection \<open>C doubles\<close>

text \<open>
  A \<^verbatim>\<open>double\<close> is NaN, an infinity or a finite value. Finite values are rationals and
  arithmetic on them is exact: rounding to 53 bits and the sign of zero are not
  modelled. Comparisons follow IEEE 754: every comparison with NaN is false.
\<close>

datatype double = NaN | MInf | Fin rat | PInf

fun isnan :: "double \<Rightarrow> bool" where
  "isnan NaN = True"
| "isnan _ = False"

fun d_le :: "double \<Rightarrow> double \<Rightarrow> bool" where
  "d_le NaN _ = False"
| "d_le _ NaN = False"
| "d_le MInf _ = True"
| "d_le _ PInf = True"
| "d_le (Fin a) (Fin b) = (a \<le> b)"
| "d_le _ _ = False"

fun d_lt :: "double \<Rightarrow> double \<Rightarrow> bool" where
  "d_lt NaN _ = False"
| "d_lt _ NaN = False"
| "d_lt PInf _ = False"
| "d_lt _ MInf = False"
| "d_lt (Fin a) (Fin b) = (a < b)"
| "d_lt _ _ = True"

definition d_ge :: "double \<Rightarrow> double \<Rightarrow> bool" where
  "d_ge a b = d_le b a"

definition d_eq :: "double \<Rightarrow> double \<Rightarrow> bool" where
  "d_eq a b = (\<not> isnan a \<and> \<not> isnan b \<and> a = b)"

fun d_neg :: "double \<Rightarrow> double" where
  "d_neg NaN = NaN"
| "d_neg MInf = PInf"
| "d_neg (Fin a) = Fin (- a)"
| "d_neg PInf = MInf"

fun d_add :: "double \<Rightarrow> double \<Rightarrow> double" where
  "d_add NaN _ = NaN"
| "d_add _ NaN = NaN"
| "d_add (Fin a) (Fin b) = Fin (a + b)"
| "d_add (Fin a) b = b"
| "d_add a (Fin b) = a"
| "d_add a b = (if a = b then a else NaN)"

definition d_sub :: "double \<Rightarrow> double \<Rightarrow> double" where
  "d_sub a b = d_add a (d_neg b)"

fun d_mul :: "double \<Rightarrow> double \<Rightarrow> double" where
  "d_mul NaN _ = NaN"
| "d_mul _ NaN = NaN"
| "d_mul (Fin a) (Fin b) = Fin (a * b)"
| "d_mul a b =
     (if a = Fin 0 \<or> b = Fin 0 then NaN
      else if d_lt a (Fin 0) = d_lt b (Fin 0) then PInf else MInf)"

fun d_div :: "double \<Rightarrow> double \<Rightarrow> double" where
  "d_div NaN _ = NaN"
| "d_div _ NaN = NaN"
| "d_div (Fin a) (Fin b) =
     (if b \<noteq> 0 then Fin (a / b)
      else if a = 0 then NaN else if 0 < a then PInf else MInf)"
| "d_div (Fin a) b = Fin 0"
| "d_div a (Fin b) = (if (a = PInf) = (0 \<le> b) then PInf else MInf)"
| "d_div a b = NaN"

text \<open>
  Conversions of a double to an integer type truncate towards zero; C leaves the
  conversion undefined when the truncated value is not in the range of the type
  (\<open>None\<close>). Values of the C integer types are integers in the range of the type.
\<close>

definition trunc :: "rat \<Rightarrow> int" where
  "trunc q = (if 0 \<le> q then \<lfloor>q\<rfloor> else \<lceil>q\<rceil>)"

fun d2int :: "double \<Rightarrow> int option" where
  "d2int (Fin q) =
     (if - (2 ^ 31) \<le> trunc q \<and> trunc q < 2 ^ 31 then Some (trunc q) else None)"
| "d2int _ = None"

fun d2size :: "double \<Rightarrow> int option" where
  "d2size (Fin q) =
     (if 0 \<le> trunc q \<and> trunc q < 2 ^ 64 then Some (trunc q) else None)"
| "d2size _ = None"

subsection \<open>The ladder and the four tables\<close>

definition db :: "double list" where
  "db = [Fin (- 90), Fin (- 60), Fin (- 40), Fin (- 30), Fin (- 24), Fin (- 21),
         Fin (- 18), Fin (- 15), Fin (- 12), Fin (- 9), Fin (- 6), Fin (- 3),
         Fin 0, Fin 3, Fin 6]"

definition points :: nat where
  "points = length db"

record tables =
  start_db :: "double list"
  end_db :: "double list"
  start_time :: "double list"
  end_time :: "double list"

text \<open>The static initialisers: both dB arrays hold the ladder, both time arrays NaN.\<close>

definition initial :: tables where
  "initial = \<lparr> start_db = db, end_db = db,
               start_time = replicate points NaN, end_time = replicate points NaN \<rparr>"

definition chunkSeconds :: double where
  "chunkSeconds = Fin (1 / 10)"

subsection \<open>analyzeChunk\<close>

text \<open>
  How a run ends when it does not reach \<^verbatim>\<open>exit(0)\<close>: an exit status, or behaviour that C
  leaves undefined (a conversion out of range, an overflowing \<^verbatim>\<open>int\<close>).
\<close>

datatype abort = Exit int | Undefined

text \<open>
  What the loudness engine answers on one chunk: whether \<^verbatim>\<open>AnalyzeSamples\<close> returned
  \<^verbatim>\<open>GAIN_ANALYSIS_OK\<close>, and the value of \<^verbatim>\<open>GetTitleGain()\<close>.
\<close>

datatype engine_chunk = Chunk (analyze_ok: bool) (title_gain: double)

text \<open>The body of the first loop of \<^verbatim>\<open>analyzeChunk\<close>, at index \<open>i\<close>.\<close>

definition start_step :: "double \<Rightarrow> double \<Rightarrow> nat \<Rightarrow> tables \<Rightarrow> tables" where
  "start_step vol chunkTime i tb =
     (if isnan (start_time tb ! i) \<and> d_ge vol (db ! i)
      then tb\<lparr> start_db := (start_db tb)[i := vol],
               start_time := (start_time tb)[i := chunkTime] \<rparr>
      else tb)"

text \<open>The body of the second loop, at index \<open>i\<close>.\<close>

definition end_step :: "double \<Rightarrow> double \<Rightarrow> double \<Rightarrow> nat \<Rightarrow> tables \<Rightarrow> tables" where
  "end_step vol chunkTime len i tb =
     (if d_ge vol (db ! i)
      then tb\<lparr> end_db := (end_db tb)[i := vol],
               end_time := (end_time tb)[i := d_sub len chunkTime] \<rparr>
      else tb)"

text \<open>
  \<open>nes\<close> is the constant \<^verbatim>\<open>GAIN_NOT_ENOUGH_SAMPLES\<close> of the engine's header. The sample
  buffers only travel to the engine, whose answer is the argument \<open>c\<close>.
\<close>

definition analyzeChunk :: "int \<Rightarrow> engine_chunk \<Rightarrow> double \<Rightarrow> double \<Rightarrow> tables \<Rightarrow> abort + tables" where
  "analyzeChunk nes c chunkTime len tb =
     (if \<not> analyze_ok c then Inl (Exit 1)
      else
        let gain = title_gain c in
        case d2int gain of
          None \<Rightarrow> Inl Undefined
        | Some g \<Rightarrow>
            if nes = g then Inl (Exit 1)
            else
              let vol = d_neg gain;
                  tb1 = fold (start_step vol chunkTime) [0..<points] tb;
                  tb2 = fold (end_step vol chunkTime len) [0..<points] tb1
              in Inr tb2)"

subsection \<open>dumpRamps\<close>

text \<open>
  One iteration of a printing loop of \<^verbatim>\<open>dumpRamps\<close>. The state is \<^verbatim>\<open>last_db\<close>,
  \<^verbatim>\<open>last_time\<close> and the rows printed so far, each row being the two arguments of one
  \<^verbatim>\<open>printf("%.2f %.2f;", ...)\<close>.
\<close>

type_synonym row = "double \<times> double"

definition ramp_step :: "double list \<Rightarrow> double list \<Rightarrow> nat \<Rightarrow> double \<times> double \<times> row list \<Rightarrow> double \<times> double \<times> row list" where
  "ramp_step dbs tms i s =
     (case s of (last_db, last_time, rows) \<Rightarrow>
        if (d_eq last_time (tms ! i) \<and> d_eq last_db (dbs ! i)) \<or> isnan (tms ! i)
        then s
        else (dbs ! i, tms ! i, rows @ [(dbs ! i, tms ! i)]))"

definition ramp_rows :: "double list \<Rightarrow> double list \<Rightarrow> row list" where
  "ramp_rows dbs tms = snd (snd (fold (ramp_step dbs tms) [0..<points] (Fin 0, NaN, [])))"

definition start_rows :: "tables \<Rightarrow> row list" where
  "start_rows tb = ramp_rows (start_db tb) (start_time tb)"

definition end_rows :: "tables \<Rightarrow> row list" where
  "end_rows tb = ramp_rows (end_db tb) (end_time tb)"

text \<open>
  \<^verbatim>\<open>%.2f\<close>: the value is rounded to a multiple of 1/100, ties to even, and printed with a
  minus sign when negative, the decimal digits of the integer part, a point and two
  digits.
\<close>

definition digit :: "nat \<Rightarrow> char" where
  "digit d = ''0123456789'' ! d"

fun decimal :: "nat \<Rightarrow> string" where
  "decimal n = (if n < 10 then [digit n] else decimal (n div 10) @ [digit (n mod 10)])"

declare decimal.simps [simp del]

definition round_even :: "rat \<Rightarrow> nat" where
  "round_even x =
     (let f = \<lfloor>x\<rfloor>; r = x - of_int f
      in nat (if r < 1 / 2 then f else if 1 / 2 < r then f + 1
              else if even f then f else f + 1))"

fun printf_2f :: "double \<Rightarrow> string" where
  "printf_2f (Fin q) =
     (let n = round_even (\<bar>q\<bar> * 100)
      in (if q < 0 then ''-'' else '''') @ decimal (n div 100) @ ''.'' @
         [digit (n mod 100 div 10), digit (n mod 10)])"
| "printf_2f NaN = ''nan''"
| "printf_2f PInf = ''inf''"
| "printf_2f MInf = ''-inf''"

definition printf_row :: "row \<Rightarrow> string" where
  "printf_row r = printf_2f (fst r) @ '' '' @ printf_2f (snd r) @ '';''"

definition newline :: string where
  "newline = [CHR 0x0A]"

definition dumpRamps :: "tables \<Rightarrow> string" where
  "dumpRamps tb =
     ''MIXRAMP_START='' @ concat (map printf_row (start_rows tb)) @ newline @
     ''MIXRAMP_END='' @ concat (map printf_row (end_rows tb)) @ newline"

subsection \<open>main\<close>

text \<open>
  Everything \<^verbatim>\<open>main\<close> learns from outside: the argument count, what the decoder reports,
  whether each \<^verbatim>\<open>malloc\<close> succeeds, and the engine's answer for each full chunk the
  decoder delivers (the loop ends at the first read that is not a full chunk).
  For \<^verbatim>\<open>afOpenFile\<close> and the three \<^verbatim>\<open>malloc\<close> calls \<open>None\<close> is success and \<open>Some e\<close> is
  failure with \<^verbatim>\<open>errno\<close> equal to \<open>e\<close>. After each such failure \<^verbatim>\<open>main\<close> calls
  \<^verbatim>\<open>perror(NULL)\<close> and only then reads \<^verbatim>\<open>errno\<close> for its return value. The C library may
  change \<^verbatim>\<open>errno\<close> while it writes to standard error, so \<open>perror e x\<close> is the value of
  \<^verbatim>\<open>errno\<close> after the call when it was \<open>x\<close> before it.
\<close>

record env =
  GAIN_NOT_ENOUGH_SAMPLES :: int
  argc :: int
  afOpenFile :: "int option"
  perror :: "int \<Rightarrow> int"
  afGetFrameCount :: int
  afGetVirtualChannels :: int
  afGetRate :: double
  malloc_iSamples :: "int option"
  malloc_lSamples :: "int option"
  malloc_rSamples :: "int option"
  chunks :: "engine_chunk list"

text \<open>
  Modelled from the spec: the table of sample rates of the loudness engine
  (\<^verbatim>\<open>gain_analysis.c\<close>, not in the source tree). The spec lists the rates for which
  filter coefficients are tabulated.
\<close>

definition supported_rates :: "rat list" where
  "supported_rates = [48000, 44100, 32000, 24000, 22050, 16000, 12000, 11025, 8000]"

text \<open>
  Modelled from the spec: \<^verbatim>\<open>InitGainAnalysis\<close> of the loudness engine, not in the source
  tree. By the spec's contract it succeeds exactly on the tabulated rates. The result is
  whether it returned \<^verbatim>\<open>INIT_GAIN_ANALYSIS_OK\<close>.
\<close>

fun InitGainAnalysis :: "double \<Rightarrow> bool" where
  "InitGainAnalysis (Fin r) = (r \<in> set supported_rates)"
| "InitGainAnalysis _ = False"

text \<open>
  \<^verbatim>\<open>length = frameCount / sampleRate + chunkSeconds\<close> and
  \<^verbatim>\<open>chunkSamples = chunkSeconds * sampleRate\<close>, the latter converted to \<^verbatim>\<open>size_t\<close>.
\<close>

definition track_length :: "int \<Rightarrow> double \<Rightarrow> double" where
  "track_length frameCount sampleRate =
     d_add (d_div (Fin (of_int frameCount)) sampleRate) chunkSeconds"

definition chunkSamples_of :: "double \<Rightarrow> int option" where
  "chunkSamples_of sampleRate = d2size (d_mul chunkSeconds sampleRate)"

text \<open>
  The statements of \<^verbatim>\<open>main\<close> before the first line is printed: the result is the chunk
  size in samples, the sample rate and the padded track length.
\<close>

definition startup :: "env \<Rightarrow> abort + int \<times> double \<times> double" where
  "startup e =
     (if 2 \<noteq> argc e then Inl (Exit 1)
      else
        (case afOpenFile e of
           Some errno \<Rightarrow> Inl (Exit (perror e errno))
         | None \<Rightarrow>
             (let frameCount = afGetFrameCount e;
                  channelCount = afGetVirtualChannels e
              in if 1 \<noteq> channelCount \<and> 2 \<noteq> channelCount then Inl (Exit 1)
                 else
                   (let sampleRate = afGetRate e;
                        len = track_length frameCount sampleRate
                    in if \<not> InitGainAnalysis sampleRate then Inl (Exit 1)
                       else
                         (case chunkSamples_of sampleRate of
                            None \<Rightarrow> Inl Undefined
                          | Some chunkSamples \<Rightarrow>
                              (case malloc_iSamples e of
                                 Some errno \<Rightarrow> Inl (Exit (perror e errno))
                               | None \<Rightarrow>
                                   (case malloc_lSamples e of
                                      Some errno \<Rightarrow> Inl (Exit (perror e errno))
                                    | None \<Rightarrow>
                                        (case (if 2 = channelCount then malloc_rSamples e
                                               else None) of
                                           Some errno \<Rightarrow> Inl (Exit (perror e errno))
                                         | None \<Rightarrow>
                                             Inr (chunkSamples, sampleRate, len)))))))))"

text \<open>
  \<^verbatim>\<open>chunkCount * chunkSamples / sampleRate\<close>: the product is computed in \<^verbatim>\<open>size_t\<close>
  (64 bits, wrapping) and then converted to double.
\<close>

definition chunkTime_of :: "int \<Rightarrow> double \<Rightarrow> int \<Rightarrow> double" where
  "chunkTime_of chunkSamples sampleRate chunkCount =
     d_div (Fin (of_int ((chunkCount * chunkSamples) mod 2 ^ 64))) sampleRate"

text \<open>
  The \<^verbatim>\<open>while\<close> loop, one list element per full chunk read. \<^verbatim>\<open>chunkCount\<close> is an
  \<^verbatim>\<open>int\<close>: incrementing it at \<^verbatim>\<open>INT_MAX\<close> is undefined.
\<close>

fun scan :: "int \<Rightarrow> int \<Rightarrow> double \<Rightarrow> double \<Rightarrow> int \<Rightarrow> engine_chunk list \<Rightarrow> tables \<Rightarrow> abort + tables" where
  "scan nes chunkSamples sampleRate len chunkCount [] tb = Inr tb"
| "scan nes chunkSamples sampleRate len chunkCount (c # cs) tb =
     (case analyzeChunk nes c (chunkTime_of chunkSamples sampleRate chunkCount) len tb of
        Inl a \<Rightarrow> Inl a
      | Inr tb' \<Rightarrow>
          if chunkCount = 2 ^ 31 - 1 then Inl Undefined
          else scan nes chunkSamples sampleRate len (chunkCount + 1) cs tb')"

text \<open>The tables as they are when \<^verbatim>\<open>main\<close> calls \<^verbatim>\<open>dumpRamps\<close>.\<close>

definition main_tables :: "env \<Rightarrow> abort + tables" where
  "main_tables e =
     (case startup e of
        Inl a \<Rightarrow> Inl a
      | Inr (chunkSamples, sampleRate, len) \<Rightarrow>
          scan (GAIN_NOT_ENOUGH_SAMPLES e) chunkSamples sampleRate len 0 (chunks e) initial)"

text \<open>
  Standard output and how the process ends. The first line is printed once the setup is
  over. Of the diagnostics on standard error only what \<^verbatim>\<open>perror\<close> does to \<^verbatim>\<open>errno\<close> is
  modelled.
\<close>

definition main :: "env \<Rightarrow> string \<times> abort" where
  "main e =
     (case startup e of
        Inl a \<Rightarrow> ('''', a)
      | Inr (chunkSamples, sampleRate, len) \<Rightarrow>
          (case scan (GAIN_NOT_ENOUGH_SAMPLES e) chunkSamples sampleRate len 0 (chunks e) initial of
             Inl a \<Rightarrow> (''MIXRAMP_REF=89.00'' @ newline, a)
           | Inr tb \<Rightarrow> (''MIXRAMP_REF=89.00'' @ newline @ dumpRamps tb, Exit 0)))"

subsection \<open>Notions used to state the properties\<close>

text \<open>The loudness of a chunk is the negated title gain (\<^verbatim>\<open>vol = -gain\<close>).\<close>

definition vol_of :: "engine_chunk \<Rightarrow> double" where
  "vol_of c = d_neg (title_gain c)"

text \<open>Chunk \<open>c\<close> reaches ladder level \<open>i\<close>: the test \<^verbatim>\<open>vol >= db[i]\<close>.\<close>

definition reaches :: "nat \<Rightarrow> engine_chunk \<Rightarrow> bool" where
  "reaches i c = d_ge (vol_of c) (db ! i)"

text \<open>The index of the first, and of the last, element of a list that satisfies \<open>P\<close>.\<close>

fun first_index :: "('a \<Rightarrow> bool) \<Rightarrow> 'a list \<Rightarrow> nat option" where
  "first_index P [] = None"
| "first_index P (x # xs) = (if P x then Some 0 else map_option Suc (first_index P xs))"

definition last_index :: "('a \<Rightarrow> bool) \<Rightarrow> 'a list \<Rightarrow> nat option" where
  "last_index P xs = map_option (\<lambda>j. length xs - 1 - j) (first_index P (rev xs))"

text \<open>All four arrays have \<open>points\<close> elements.\<close>

definition wf_tables :: "tables \<Rightarrow> bool" where
  "wf_tables tb =
     (length (start_db tb) = points \<and> length (end_db tb) = points \<and>
      length (start_time tb) = points \<and> length (end_time tb) = points)"

text \<open>A row is set when its time is not NaN.\<close>

definition start_set :: "tables \<Rightarrow> nat \<Rightarrow> bool" where
  "start_set tb i = (\<not> isnan (start_time tb ! i))"

definition end_set :: "tables \<Rightarrow> nat \<Rightarrow> bool" where
  "end_set tb i = (\<not> isnan (end_time tb ! i))"

text \<open>Row \<open>i\<close> of the start table and of the end table: the dB value and the time.\<close>

definition start_row :: "tables \<Rightarrow> nat \<Rightarrow> row" where
  "start_row tb i = (start_db tb ! i, start_time tb ! i)"

definition end_row :: "tables \<Rightarrow> nat \<Rightarrow> row" where
  "end_row tb i = (end_db tb ! i, end_time tb ! i)"

text \<open>
  Row \<open>a\<close> comes before row \<open>b\<close> on a rising ramp: the dB value strictly increases and
  the time does not decrease.
\<close>

definition row_before :: "row \<Rightarrow> row \<Rightarrow> bool" where
  "row_before a b = (d_lt (fst a) (fst b) \<and> d_le (snd a) (snd b))"

text \<open>The start time \<^verbatim>\<open>main\<close> computes for chunk number \<open>j\<close> of a run.\<close>

definition chunk_time :: "env \<Rightarrow> nat \<Rightarrow> double" where
  "chunk_time e j =
     (case chunkSamples_of (afGetRate e) of
        None \<Rightarrow> NaN
      | Some chunkSamples \<Rightarrow> chunkTime_of chunkSamples (afGetRate e) (int j))"

text \<open>
  The tables when the loop of \<^verbatim>\<open>main\<close> has processed the first \<open>n\<close> chunks of a run:
  the run on the input cut after \<open>n\<close> chunks.
\<close>

definition tables_after :: "env \<Rightarrow> nat \<Rightarrow> abort + tables" where
  "tables_after e n = main_tables (e\<lparr> chunks := take n (chunks e) \<rparr>)"

text \<open>
  A point of the scan: the loop of \<^verbatim>\<open>main\<close> has processed \<open>n\<close> chunks and, when there
  is a further chunk, \<^verbatim>\<open>analyzeChunk\<close> has run \<open>m1\<close> iterations of its first loop and
  \<open>m2\<close> iterations of its second loop on it. With \<open>m1 = m2 = 0\<close> this is the state
  between two chunks; with \<open>n\<close> the number of chunks it is the final state.
\<close>

definition scan_point :: "env \<Rightarrow> nat \<Rightarrow> nat \<Rightarrow> nat \<Rightarrow> abort + tables" where
  "scan_point e n m1 m2 =
     (case tables_after e n of
        Inl a \<Rightarrow> Inl a
      | Inr tb \<Rightarrow>
          if n < length (chunks e)
          then Inr (fold (end_step (vol_of (chunks e ! n)) (chunk_time e n)
                            (track_length (afGetFrameCount e) (afGetRate e))) [0..<m2]
                     (fold (start_step (vol_of (chunks e ! n)) (chunk_time e n)) [0..<m1] tb))
          else Inr tb)"

text \<open>
  The checks of \<^verbatim>\<open>analyzeChunk\<close> on the engine's answer for one chunk. The answer is a
  misuse when \<^verbatim>\<open>AnalyzeSamples\<close> fails or the gain is the value
  \<^verbatim>\<open>GAIN_NOT_ENOUGH_SAMPLES\<close>; it is fine when both checks pass.
\<close>

definition chunk_misuse :: "int \<Rightarrow> engine_chunk \<Rightarrow> bool" where
  "chunk_misuse nes c = (\<not> analyze_ok c \<or> d2int (title_gain c) = Some nes)"

definition chunk_fine :: "int \<Rightarrow> engine_chunk \<Rightarrow> bool" where
  "chunk_fine nes c =
     (analyze_ok c \<and> d2int (title_gain c) \<noteq> None \<and> d2int (title_gain c) \<noteq> Some nes)"

text \<open>
  Everything before the loop succeeds: one argument, the file opens, one or two
  channels, a sample rate the engine accepts, and the buffers are allocated.
\<close>

definition setup_ok :: "env \<Rightarrow> bool" where
  "setup_ok e =
     (argc e = 2 \<and> afOpenFile e = None \<and>
      (afGetVirtualChannels e = 1 \<or> afGetVirtualChannels e = 2) \<and>
      InitGainAnalysis (afGetRate e) \<and>
      malloc_iSamples e = None \<and> malloc_lSamples e = None \<and>
      (if afGetVirtualChannels e = 2 then malloc_rSamples e = None else True))"

text \<open>
  The shape \<^verbatim>\<open>%.2f\<close> gives a finite value: an optional minus sign, one or more digits, a
  point and exactly two digits.
\<close>

definition is_digit :: "char \<Rightarrow> bool" where
  "is_digit c = (c \<in> set ''0123456789'')"

definition two_decimals :: "string \<Rightarrow> bool" where
  "two_decimals s =
     (case rev (if take 1 s = ''-'' then drop 1 s else s) of
        b # a # p # ds \<Rightarrow>
          is_digit b \<and> is_digit a \<and> p = CHR ''.'' \<and> ds \<noteq> [] \<and> list_all is_digit ds
      | _ \<Rightarrow> False)"

text \<open>The time of the first row of each body of a run that reaches \<^verbatim>\<open>dumpRamps\<close>.\<close>

definition first_start_time :: "env \<Rightarrow> double option" where
  "first_start_time e =
     (case main_tables e of
        Inl a \<Rightarrow> None
      | Inr tb \<Rightarrow> (case start_rows tb of [] \<Rightarrow> None | r # rs \<Rightarrow> Some (snd r)))"

definition first_end_time :: "env \<Rightarrow> double option" where
  "first_end_time e =
     (case main_tables e of
        Inl a \<Rightarrow> None
      | Inr tb \<Rightarrow> (case end_rows tb of [] \<Rightarrow> None | r # rs \<Rightarrow> Some (snd r)))"

subsection \<open>A worked run\<close>

text \<open>
  A mono file at 8000 Hz with 2400 frames: three chunks of 800 samples, of loudness
  -50 dB, 0 dB and -50 dB. The tables after each of the three chunks follow.
\<close>

definition ex_env :: env where
  "ex_env = \<lparr> GAIN_NOT_ENOUGH_SAMPLES = - 24601, argc = 2, afOpenFile = None,
     perror = (\<lambda>errno. errno),
     afGetFrameCount = 2400, afGetVirtualChannels = 1, afGetRate = Fin 8000,
     malloc_iSamples = None, malloc_lSamples = None, malloc_rSamples = None,
     chunks = [Chunk True (Fin 50), Chunk True (Fin 0), Chunk True (Fin 50)] \<rparr>"

definition ex_tb1 :: tables where
  "ex_tb1 = \<lparr>
     start_db = [Fin (- 50), Fin (- 50), Fin (- 40), Fin (- 30), Fin (- 24), Fin (- 21),
       Fin (- 18), Fin (- 15), Fin (- 12), Fin (- 9), Fin (- 6), Fin (- 3), Fin 0, Fin 3, Fin 6],
     end_db = [Fin (- 50), Fin (- 50), Fin (- 40), Fin (- 30), Fin (- 24), Fin (- 21),
       Fin (- 18), Fin (- 15), Fin (- 12), Fin (- 9), Fin (- 6), Fin (- 3), Fin 0, Fin 3, Fin 6],
     start_time = [Fin 0, Fin 0, NaN, NaN, NaN, NaN, NaN, NaN, NaN, NaN, NaN, NaN, NaN, NaN, NaN],
     end_time = [Fin (2 / 5), Fin (2 / 5), NaN, NaN, NaN, NaN, NaN, NaN, NaN, NaN, NaN, NaN,
       NaN, NaN, NaN] \<rparr>"

definition ex_tb2 :: tables where
  "ex_tb2 = \<lparr>
     start_db = [Fin (- 50), Fin (- 50), Fin 0, Fin 0, Fin 0, Fin 0, Fin 0, Fin 0, Fin 0,
       Fin 0, Fin 0, Fin 0, Fin 0, Fin 3, Fin 6],
     end_db = [Fin 0, Fin 0, Fin 0, Fin 0, Fin 0, Fin 0, Fin 0, Fin 0, Fin 0, Fin 0, Fin 0,
       Fin 0, Fin 0, Fin 3, Fin 6],
     start_time = [Fin 0, Fin 0, Fin (1 / 10), Fin (1 / 10), Fin (1 / 10), Fin (1 / 10),
       Fin (1 / 10), Fin (1 / 10), Fin (1 / 10), Fin (1 / 10), Fin (1 / 10), Fin (1 / 10),
       Fin (1 / 10), NaN, NaN],
     end_time = [Fin (3 / 10), Fin (3 / 10), Fin (3 / 10), Fin (3 / 10), Fin (3 / 10),
       Fin (3 / 10), Fin (3 / 10), Fin (3 / 10), Fin (3 / 10), Fin (3 / 10), Fin (3 / 10),
       Fin (3 / 10), Fin (3 / 10), NaN, NaN] \<rparr>"

definition ex_tb3 :: tables where
  "ex_tb3 = \<lparr>
     start_db = [Fin (- 50), Fin (- 50), Fin 0, Fin 0, Fin 0, Fin 0, Fin 0, Fin 0, Fin 0,
       Fin 0, Fin 0, Fin 0, Fin 0, Fin 3, Fin 6],
     end_db = [Fin (- 50), Fin (- 50), Fin 0, Fin 0, Fin 0, Fin 0, Fin 0, Fin 0, Fin 0,
       Fin 0, Fin 0, Fin 0, Fin 0, Fin 3, Fin 6],
     start_time = [Fin 0, Fin 0, Fin (1 / 10), Fin (1 / 10), Fin (1 / 10), Fin (1 / 10),
       Fin (1 / 10), Fin (1 / 10), Fin (1 / 10), Fin (1 / 10), Fin (1 / 10), Fin (1 / 10),
       Fin (1 / 10), NaN, NaN],
     end_time = [Fin (1 / 5), Fin (1 / 5), Fin (3 / 10), Fin (3 / 10), Fin (3 / 10),
       Fin (3 / 10), Fin (3 / 10), Fin (3 / 10), Fin (3 / 10), Fin (3 / 10), Fin (3 / 10),
       Fin (3 / 10), Fin (3 / 10), NaN, NaN] \<rparr>"

text \<open>
  The worked run inside the third chunk: the first loop of \<^verbatim>\<open>analyzeChunk\<close> is over and
  the second loop has handled row 0 only.
\<close>

definition ex_mid :: tables where
  "ex_mid = \<lparr>
     start_db = [Fin (- 50), Fin (- 50), Fin 0, Fin 0, Fin 0, Fin 0, Fin 0, Fin 0, Fin 0,
       Fin 0, Fin 0, Fin 0, Fin 0, Fin 3, Fin 6],
     end_db = [Fin (- 50), Fin 0, Fin 0, Fin 0, Fin 0, Fin 0, Fin 0, Fin 0, Fin 0, Fin 0,
       Fin 0, Fin 0, Fin 0, Fin 3, Fin 6],
     start_time = [Fin 0, Fin 0, Fin (1 / 10), Fin (1 / 10), Fin (1 / 10), Fin (1 / 10),
       Fin (1 / 10), Fin (1 / 10), Fin (1 / 10), Fin (1 / 10), Fin (1 / 10), Fin (1 / 10),
       Fin (1 / 10), NaN, NaN],
     end_time = [Fin (1 / 5), Fin (3 / 10), Fin (3 / 10), Fin (3 / 10), Fin (3 / 10),
       Fin (3 / 10), Fin (3 / 10), Fin (3 / 10), Fin (3 / 10), Fin (3 / 10), Fin (3 / 10),
       Fin (3 / 10), Fin (3 / 10), NaN, NaN] \<rparr>"

text \<open>
  Ten seconds of mono audio at 44100 Hz: fifty chunks of loudness -100 dB (silence), then
  fifty chunks of loudness 7 dB.
\<close>

definition scenario_C :: env where
  "scenario_C = \<lparr> GAIN_NOT_ENOUGH_SAMPLES = - 24601, argc = 2, afOpenFile = None,
     perror = (\<lambda>errno. errno),
     afGetFrameCount = 441000, afGetVirtualChannels = 1, afGetRate = Fin 44100,
     malloc_iSamples = None, malloc_lSamples = None, malloc_rSamples = None,
     chunks = replicate 50 (Chunk True (Fin 100)) @ replicate 50 (Chunk True (Fin (- 7))) \<rparr>"

text \<open>
  The same ten seconds at 11025 Hz, where a chunk is 1102 samples and the hundred chunks
  start at the multiples of 1102 / 11025 s.
\<close>

definition scenario_C_11025 :: env where
  "scenario_C_11025 = \<lparr> GAIN_NOT_ENOUGH_SAMPLES = - 24601, argc = 2, afOpenFile = None,
     perror = (\<lambda>errno. errno),
     afGetFrameCount = 110250, afGetVirtualChannels = 1, afGetRate = Fin 11025,
     malloc_iSamples = None, malloc_lSamples = None, malloc_rSamples = None,
     chunks = replicate 50 (Chunk True (Fin 100)) @ replicate 50 (Chunk True (Fin (- 7))) \<rparr>"


section \<open>Properties of the model\<close>

subsection \<open>The order on doubles, the ladder, first and last indices\<close>

lemma d_le_trans: "d_le a b \<Longrightarrow> d_le b c \<Longrightarrow> d_le a c"
  by (cases a; cases b; cases c) auto

lemma d_lt_le_trans: "d_lt a b \<Longrightarrow> d_le b c \<Longrightarrow> d_lt a c"
  by (cases a; cases b; cases c) auto

lemma d_lt_trans: "d_lt a b \<Longrightarrow> d_lt b c \<Longrightarrow> d_lt a c"
  by (cases a; cases b; cases c) auto

lemma d_lt_imp_le: "d_lt a b \<Longrightarrow> d_le a b"
  by (cases a; cases b) auto

lemma d_lt_imp_neq: "d_lt a b \<Longrightarrow> a \<noteq> b"
  by (cases a; cases b) auto

lemma not_le_imp_lt: "\<not> d_le a b \<Longrightarrow> \<not> isnan a \<Longrightarrow> \<not> isnan b \<Longrightarrow> d_lt b a"
  by (cases a; cases b) auto

lemma d_le_refl: "\<not> isnan a \<Longrightarrow> d_le a a"
  by (cases a) auto

lemma d_le_not_nan: "d_le a b \<Longrightarrow> \<not> isnan a \<and> \<not> isnan b"
  by (cases a; cases b) auto

lemma points_15: "points = 15"
  by (simp add: points_def db_def)

lemma db_sorted: "sorted_wrt d_lt db"
  by (simp add: db_def)

lemma db_less: "i < j \<Longrightarrow> j < points \<Longrightarrow> d_lt (db ! i) (db ! j)"
  using db_sorted by (simp add: sorted_wrt_iff_nth_less points_def)

lemma db_not_nan: "i < points \<Longrightarrow> \<not> isnan (db ! i)"
  by (simp add: points_def db_def nth_Cons' )

lemma reaches_down: "i \<le> j \<Longrightarrow> j < points \<Longrightarrow> reaches j c \<Longrightarrow> reaches i c"
  unfolding reaches_def d_ge_def
  by (metis d_le_trans d_lt_imp_le db_less le_neq_implies_less)

lemma first_index_snoc:
  "first_index P (xs @ [x]) =
     (case first_index P xs of Some j \<Rightarrow> Some j
      | None \<Rightarrow> if P x then Some (length xs) else None)"
  by (induction xs) (auto split: option.splits)

lemma last_index_snoc:
  "last_index P (xs @ [x]) = (if P x then Some (length xs) else last_index P xs)"
  by (auto simp: last_index_def option.map_comp comp_def intro!: option.map_cong)

lemma first_index_None: "first_index P xs = None \<longleftrightarrow> (\<forall>x \<in> set xs. \<not> P x)"
  by (induction xs) auto

lemma first_index_Some:
  "first_index P xs = Some j \<longleftrightarrow> j < length xs \<and> P (xs ! j) \<and> (\<forall>j' < j. \<not> P (xs ! j'))"
proof (induction xs arbitrary: j)
  case Nil
  then show ?case by simp
next
  case (Cons x xs)
  show ?case
  proof (cases "P x")
    case True
    then show ?thesis by (cases j) auto
  next
    case False
    show ?thesis
    proof (cases j)
      case 0
      with False show ?thesis by auto
    next
      case (Suc m)
      have "(\<forall>j'<Suc m. \<not> P ((x # xs) ! j')) \<longleftrightarrow> (\<forall>j'<m. \<not> P (xs ! j'))"
        using False by (auto simp: less_Suc_eq_0_disj)
      with False Suc Cons.IH [of m] show ?thesis by auto
    qed
  qed
qed

lemma last_index_None: "last_index P xs = None \<longleftrightarrow> (\<forall>x \<in> set xs. \<not> P x)"
  by (simp add: last_index_def first_index_None)

lemma last_index_Some:
  "last_index P xs = Some j \<longleftrightarrow>
     j < length xs \<and> P (xs ! j) \<and> (\<forall>j'. j < j' \<and> j' < length xs \<longrightarrow> \<not> P (xs ! j'))"
proof (induction xs arbitrary: j rule: rev_induct)
  case Nil
  then show ?case by (simp add: last_index_def)
next
  case (snoc x xs)
  show ?case
  proof (cases "P x")
    case True
    have "j < length xs \<Longrightarrow> \<not> (\<forall>j'. j < j' \<and> j' < Suc (length xs) \<longrightarrow> \<not> P ((xs @ [x]) ! j'))"
      using True by (auto intro!: exI [of _ "length xs"])
    with True show ?thesis
      by (auto simp: last_index_snoc nth_append less_Suc_eq)
  next
    case False
    have "(\<forall>j'. j < j' \<and> j' < Suc (length xs) \<longrightarrow> \<not> P ((xs @ [x]) ! j')) \<longleftrightarrow>
          (\<forall>j'. j < j' \<and> j' < length xs \<longrightarrow> \<not> P (xs ! j'))"
      using False by (auto simp: nth_append less_Suc_eq)
    with False snoc.IH [of j] show ?thesis
      by (auto simp: last_index_snoc nth_append less_Suc_eq)
  qed
qed

subsection \<open>The two loops of analyzeChunk\<close>

lemma fold_start_step_other:
  "end_db (fold (start_step vol t) [0..<n] tb) = end_db tb \<and>
   end_time (fold (start_step vol t) [0..<n] tb) = end_time tb \<and>
   length (start_db (fold (start_step vol t) [0..<n] tb)) = length (start_db tb) \<and>
   length (start_time (fold (start_step vol t) [0..<n] tb)) = length (start_time tb)"
  by (induction n) (auto simp: start_step_def)

lemma fold_end_step_other:
  "start_db (fold (end_step vol t len) [0..<n] tb) = start_db tb \<and>
   start_time (fold (end_step vol t len) [0..<n] tb) = start_time tb \<and>
   length (end_db (fold (end_step vol t len) [0..<n] tb)) = length (end_db tb) \<and>
   length (end_time (fold (end_step vol t len) [0..<n] tb)) = length (end_time tb)"
  by (induction n) (auto simp: end_step_def)

lemma start_step_nth:
  assumes "i < length (start_db tb)" "i < length (start_time tb)"
  shows "start_db (start_step vol t n tb) ! i =
           (if i = n \<and> isnan (start_time tb ! n) \<and> d_ge vol (db ! n) then vol
            else start_db tb ! i)"
    and "start_time (start_step vol t n tb) ! i =
           (if i = n \<and> isnan (start_time tb ! n) \<and> d_ge vol (db ! n) then t
            else start_time tb ! i)"
  using assms by (simp_all add: start_step_def nth_list_update)

lemma end_step_nth:
  assumes "i < length (end_db tb)" "i < length (end_time tb)"
  shows "end_db (end_step vol t len n tb) ! i =
           (if i = n \<and> d_ge vol (db ! n) then vol else end_db tb ! i)"
    and "end_time (end_step vol t len n tb) ! i =
           (if i = n \<and> d_ge vol (db ! n) then d_sub len t else end_time tb ! i)"
  using assms by (simp_all add: end_step_def nth_list_update)

lemma fold_start_step_nth:
  assumes "i < length (start_db tb)" "i < length (start_time tb)"
  shows "start_db (fold (start_step vol t) [0..<n] tb) ! i =
           (if i < n \<and> isnan (start_time tb ! i) \<and> d_ge vol (db ! i) then vol
            else start_db tb ! i) \<and>
         start_time (fold (start_step vol t) [0..<n] tb) ! i =
           (if i < n \<and> isnan (start_time tb ! i) \<and> d_ge vol (db ! i) then t
            else start_time tb ! i)"
proof (induction n)
  case 0
  then show ?case by simp
next
  case (Suc n)
  let ?tb = "fold (start_step vol t) [0..<n] tb"
  have len: "i < length (start_db ?tb)" "i < length (start_time ?tb)"
    using assms fold_start_step_other [of vol t n tb] by simp_all
  have step: "fold (start_step vol t) [0..<Suc n] tb = start_step vol t n ?tb"
    by simp
  show ?case
    unfolding step start_step_nth [OF len] using Suc.IH
    by (auto simp: less_Suc_eq)
qed

lemma fold_end_step_nth:
  assumes "i < length (end_db tb)" "i < length (end_time tb)"
  shows "end_db (fold (end_step vol t len) [0..<n] tb) ! i =
           (if i < n \<and> d_ge vol (db ! i) then vol else end_db tb ! i) \<and>
         end_time (fold (end_step vol t len) [0..<n] tb) ! i =
           (if i < n \<and> d_ge vol (db ! i) then d_sub len t else end_time tb ! i)"
proof (induction n)
  case 0
  then show ?case by simp
next
  case (Suc n)
  let ?tb = "fold (end_step vol t len) [0..<n] tb"
  have len: "i < length (end_db ?tb)" "i < length (end_time ?tb)"
    using assms fold_end_step_other [of vol t len n tb] by simp_all
  have step: "fold (end_step vol t len) [0..<Suc n] tb = end_step vol t len n ?tb"
    by simp
  show ?case
    unfolding step end_step_nth [OF len] using Suc.IH
    by (auto simp: less_Suc_eq)
qed

text \<open>What one successful call of analyzeChunk does to each row.\<close>

lemma analyzeChunk_Inr:
  "analyzeChunk nes c t len tb = Inr tb' \<longleftrightarrow>
     analyze_ok c \<and> (\<exists>g. d2int (title_gain c) = Some g \<and> g \<noteq> nes) \<and>
     tb' = fold (end_step (vol_of c) t len) [0..<points]
             (fold (start_step (vol_of c) t) [0..<points] tb)"
  by (auto simp: analyzeChunk_def vol_of_def Let_def split: option.splits)

lemma analyzeChunk_wf:
  "analyzeChunk nes c t len tb = Inr tb' \<Longrightarrow> wf_tables tb \<Longrightarrow> wf_tables tb'"
  by (simp add: analyzeChunk_Inr wf_tables_def fold_start_step_other fold_end_step_other)

lemma analyzeChunk_rows:
  assumes "analyzeChunk nes c t len tb = Inr tb'" "wf_tables tb" "i < points"
  shows "start_db tb' ! i = (if isnan (start_time tb ! i) \<and> reaches i c then vol_of c else start_db tb ! i)"
    and "start_time tb' ! i = (if isnan (start_time tb ! i) \<and> reaches i c then t else start_time tb ! i)"
    and "end_db tb' ! i = (if reaches i c then vol_of c else end_db tb ! i)"
    and "end_time tb' ! i = (if reaches i c then d_sub len t else end_time tb ! i)"
  using assms
  by (simp_all add: analyzeChunk_Inr wf_tables_def fold_start_step_other fold_end_step_other
      fold_start_step_nth fold_end_step_nth reaches_def)

lemma scan_snoc:
  "scan nes k r len j (cs @ [c]) tb =
     (case scan nes k r len j cs tb of
        Inl a \<Rightarrow> Inl a
      | Inr tb' \<Rightarrow>
          (case analyzeChunk nes c (chunkTime_of k r (j + int (length cs))) len tb' of
             Inl a \<Rightarrow> Inl a
           | Inr tb'' \<Rightarrow> if j + int (length cs) = 2 ^ 31 - 1 then Inl Undefined else Inr tb''))"
proof (induction cs arbitrary: j tb)
  case Nil
  then show ?case by (simp split: sum.splits)
next
  case (Cons x xs)
  have eq: "j + 1 + int (length xs) = j + int (length (x # xs))" by simp
  show ?case
    by (simp add: Cons.IH eq split: sum.splits del: of_nat_Suc)
qed

lemma scan_length:
  "scan nes k r len j cs tb = Inr tb' \<Longrightarrow> j \<le> 2 ^ 31 - 1 \<Longrightarrow> j + int (length cs) \<le> 2 ^ 31 - 1"
proof (induction cs arbitrary: j tb)
  case Nil
  then show ?case by simp
next
  case (Cons x xs)
  from Cons.prems(1) obtain tb1 where
    ne: "j \<noteq> 2 ^ 31 - 1" and rest: "scan nes k r len (j + 1) xs tb1 = Inr tb'"
    by (auto split: sum.splits if_splits)
  from ne Cons.prems(2) have "j + 1 \<le> 2 ^ 31 - 1" by simp
  from Cons.IH [OF rest this] show ?case by simp
qed

subsection \<open>What the scan leaves in each row\<close>

text \<open>
  After any number of chunks, scanned from the initial tables, Start row \<open>i\<close> holds the
  first chunk that reaches level \<open>i\<close> and End row \<open>i\<close> the last one, provided no chunk
  time is NaN.
\<close>

lemma wf_initial: "wf_tables initial"
  by (simp add: wf_tables_def initial_def points_def)

lemma initial_rows:
  "i < points \<Longrightarrow> start_row initial i = (db ! i, NaN)"
  "i < points \<Longrightarrow> end_row initial i = (db ! i, NaN)"
  by (simp_all add: start_row_def end_row_def initial_def)

lemma scan_snoc_Inr:
  assumes "scan nes k r len j (cs @ [c]) tb = Inr tb2"
  obtains tb1 where "scan nes k r len j cs tb = Inr tb1"
    and "analyzeChunk nes c (chunkTime_of k r (j + int (length cs))) len tb1 = Inr tb2"
  using assms unfolding scan_snoc by (auto split: sum.splits if_splits)

lemma scan_rows:
  assumes "scan nes k r len 0 cs initial = Inr tb"
    and "\<forall>j < length cs. \<not> isnan (chunkTime_of k r (int j))"
  shows "wf_tables tb \<and>
    (\<forall>i < points.
       start_row tb i =
         (case first_index (reaches i) cs of
            None \<Rightarrow> (db ! i, NaN)
          | Some j \<Rightarrow> (vol_of (cs ! j), chunkTime_of k r (int j))) \<and>
       end_row tb i =
         (case last_index (reaches i) cs of
            None \<Rightarrow> (db ! i, NaN)
          | Some j \<Rightarrow> (vol_of (cs ! j), d_sub len (chunkTime_of k r (int j)))))"
  using assms
proof (induction cs arbitrary: tb rule: rev_induct)
  case Nil
  then show ?case
    by (simp add: wf_initial initial_rows last_index_def)
next
  case (snoc c cs)
  from snoc.prems(1) obtain tb1 where
    s1: "scan nes k r len 0 cs initial = Inr tb1" and
    a1: "analyzeChunk nes c (chunkTime_of k r (int (length cs))) len tb1 = Inr tb"
    by (rule scan_snoc_Inr) simp
  from snoc.prems(2) have nan: "\<forall>j < length cs. \<not> isnan (chunkTime_of k r (int j))"
    by simp
  from snoc.IH [OF s1 nan] have wf1: "wf_tables tb1" and
    ih: "\<And>i. i < points \<Longrightarrow>
       start_row tb1 i =
         (case first_index (reaches i) cs of
            None \<Rightarrow> (db ! i, NaN)
          | Some j \<Rightarrow> (vol_of (cs ! j), chunkTime_of k r (int j))) \<and>
       end_row tb1 i =
         (case last_index (reaches i) cs of
            None \<Rightarrow> (db ! i, NaN)
          | Some j \<Rightarrow> (vol_of (cs ! j), d_sub len (chunkTime_of k r (int j))))"
    by simp_all
  have "wf_tables tb" using a1 wf1 by (rule analyzeChunk_wf)
  moreover have "start_row tb i =
         (case first_index (reaches i) (cs @ [c]) of
            None \<Rightarrow> (db ! i, NaN)
          | Some j \<Rightarrow> (vol_of ((cs @ [c]) ! j), chunkTime_of k r (int j)))"
    if i: "i < points" for i
  proof (cases "first_index (reaches i) cs")
    case None
    with ih [OF i] have "start_row tb1 i = (db ! i, NaN)" by simp
    then show ?thesis
      using analyzeChunk_rows(1,2) [OF a1 wf1 i] None
      by (simp add: start_row_def first_index_snoc)
  next
    case (Some j)
    then have j: "j < length cs" by (simp add: first_index_Some)
    with nan have "\<not> isnan (chunkTime_of k r (int j))" by simp
    with ih [OF i] Some have "\<not> isnan (start_time tb1 ! i)"
      by (simp add: start_row_def)
    then show ?thesis
      using analyzeChunk_rows(1,2) [OF a1 wf1 i] Some ih [OF i] j
      by (simp add: start_row_def first_index_snoc nth_append)
  qed
  moreover have "end_row tb i =
         (case last_index (reaches i) (cs @ [c]) of
            None \<Rightarrow> (db ! i, NaN)
          | Some j \<Rightarrow> (vol_of ((cs @ [c]) ! j), d_sub len (chunkTime_of k r (int j))))"
    if i: "i < points" for i
  proof (cases "reaches i c")
    case True
    then show ?thesis
      using analyzeChunk_rows(3,4) [OF a1 wf1 i]
      by (simp add: end_row_def last_index_snoc)
  next
    case False
    have "\<And>j. last_index (reaches i) cs = Some j \<Longrightarrow> j < length cs"
      by (simp add: last_index_Some)
    then show ?thesis
      using analyzeChunk_rows(3,4) [OF a1 wf1 i] ih [OF i] False
      by (auto simp: end_row_def last_index_snoc nth_append split: option.splits)
  qed
  ultimately show ?case by blast
qed

subsection \<open>The setup of main\<close>

lemma supported_rates_bounds: "q \<in> set supported_rates \<Longrightarrow> 8000 \<le> q \<and> q \<le> 48000"
  by (auto simp: supported_rates_def)

lemma trunc_nonneg: "0 \<le> q \<Longrightarrow> trunc q = \<lfloor>q\<rfloor>"
  by (simp add: trunc_def)

lemma startup_Inr:
  assumes "startup e = Inr (k, r, len)"
  obtains q where "afGetRate e = Fin q" "q \<in> set supported_rates" "r = Fin q"
    "k = \<lfloor>q / 10\<rfloor>"
    "len = Fin (of_int (afGetFrameCount e) / q + 1 / 10)"
proof -
  from assms have init: "InitGainAnalysis (afGetRate e)"
    by (auto simp: startup_def Let_def split: if_splits option.splits)
  then obtain q where q: "afGetRate e = Fin q" "q \<in> set supported_rates"
    by (cases "afGetRate e") auto
  then have pos: "0 < q" using supported_rates_bounds [of q] by simp
  from assms q pos have "r = Fin q" "k = \<lfloor>q / 10\<rfloor>"
    "len = Fin (of_int (afGetFrameCount e) / q + 1 / 10)"
    by (auto simp: startup_def Let_def chunkSeconds_def trunc_nonneg
        track_length_def chunkSamples_of_def split: if_splits option.splits)
  with q that show thesis by blast
qed

lemma chunkSamples_bounds:
  assumes "q \<in> set supported_rates"
  shows "0 < \<lfloor>q / 10\<rfloor> \<and> \<lfloor>q / 10\<rfloor> \<le> 4800"
  using assms by (auto simp: supported_rates_def)

lemma chunkTime_of_Fin:
  assumes "0 \<le> j" "j < 2 ^ 31" "0 \<le> k" "k \<le> 4800" "q \<noteq> 0"
  shows "chunkTime_of k (Fin q) j = Fin (of_int (j * k) / q)"
proof -
  have "j * k \<le> 2 ^ 31 * 4800"
    using assms by (intro mult_mono) simp_all
  also have "\<dots> < (2 ^ 64 :: int)" by simp
  finally have "j * k < 2 ^ 64" .
  moreover have "0 \<le> j * k" using assms by simp
  ultimately have "(j * k) mod 2 ^ 64 = j * k" by simp
  then show ?thesis using assms by (simp add: chunkTime_of_def)
qed

lemma chunkSamples_of_supported:
  "q \<in> set supported_rates \<Longrightarrow> chunkSamples_of (Fin q) = Some \<lfloor>q / 10\<rfloor>"
  by (auto simp: supported_rates_def chunkSamples_of_def chunkSeconds_def trunc_def)

subsection \<open>The printing loop\<close>

text \<open>
  On a table whose set rows are pairwise equal or rising, the loop prints each distinct
  set row once, in rising order.
\<close>

lemma row_before_trans: "row_before a b \<Longrightarrow> row_before b c \<Longrightarrow> row_before a c"
  unfolding row_before_def by (blast intro: d_lt_trans d_le_trans)

lemma row_before_neq: "row_before a b \<Longrightarrow> a \<noteq> b"
  unfolding row_before_def using d_lt_imp_neq by auto

lemma d_eq_nan: "isnan a \<Longrightarrow> \<not> d_eq a b"
  by (simp add: d_eq_def)

lemma ramp_fold_inv:
  assumes H: "\<And>i j. i < j \<Longrightarrow> j < N \<Longrightarrow> \<not> isnan (tms ! i) \<Longrightarrow> \<not> isnan (tms ! j) \<Longrightarrow>
      (dbs ! i, tms ! i) = (dbs ! j, tms ! j) \<or> row_before (dbs ! i, tms ! i) (dbs ! j, tms ! j)"
    and D: "\<And>i. i < N \<Longrightarrow> \<not> isnan (tms ! i) \<Longrightarrow> \<not> isnan (dbs ! i)"
    and n: "n \<le> N"
  shows "case fold (ramp_step dbs tms) [0..<n] (Fin 0, NaN, []) of (ld, lt, rows) \<Rightarrow>
     sorted_wrt row_before rows \<and>
     set rows = {(dbs ! m, tms ! m) | m. m < n \<and> \<not> isnan (tms ! m)} \<and>
     (if rows = [] then isnan lt else (ld, lt) = last rows)"
  using n
proof (induction n)
  case 0
  then show ?case by simp
next
  case (Suc n)
  obtain ld lt rows where st: "fold (ramp_step dbs tms) [0..<n] (Fin 0, NaN, []) = (ld, lt, rows)"
    by (metis prod_cases3)
  from Suc st have srt: "sorted_wrt row_before rows"
    and mem: "set rows = {(dbs ! m, tms ! m) | m. m < n \<and> \<not> isnan (tms ! m)}"
    and lst: "if rows = [] then isnan lt else (ld, lt) = last rows"
    by simp_all
  have step: "fold (ramp_step dbs tms) [0..<Suc n] (Fin 0, NaN, []) = ramp_step dbs tms n (ld, lt, rows)"
    by (simp add: st)
  have nN: "n < N" using Suc.prems by simp
  show ?case
  proof (cases "isnan (tms ! n)")
    case True
    then have "ramp_step dbs tms n (ld, lt, rows) = (ld, lt, rows)"
      by (simp add: ramp_step_def)
    moreover have "{(dbs ! m, tms ! m) | m. m < Suc n \<and> \<not> isnan (tms ! m)} =
        {(dbs ! m, tms ! m) | m. m < n \<and> \<not> isnan (tms ! m)}"
      using True by (auto simp: less_Suc_eq)
    ultimately show ?thesis using srt mem lst unfolding step by simp
  next
    case False
    then have dn: "\<not> isnan (dbs ! n)" using D nN by simp
    let ?r = "(dbs ! n, tms ! n)"
    have memSuc: "{(dbs ! m, tms ! m) | m. m < Suc n \<and> \<not> isnan (tms ! m)} =
        insert ?r {(dbs ! m, tms ! m) | m. m < n \<and> \<not> isnan (tms ! m)}"
      using False by (auto simp: less_Suc_eq)
    have rel: "x = ?r \<or> row_before x ?r" if "x \<in> set rows" for x
    proof -
      from that mem obtain m where "m < n" "\<not> isnan (tms ! m)" "x = (dbs ! m, tms ! m)"
        by auto
      with H [of m n] nN False show ?thesis by auto
    qed
    show ?thesis
    proof (cases "rows = []")
      case True
      with lst have "isnan lt" by simp
      then have stp: "ramp_step dbs tms n (ld, lt, rows) = (dbs ! n, tms ! n, [?r])"
        using False True by (simp add: ramp_step_def d_eq_nan)
      have e: "{(dbs ! m, tms ! m) | m. m < n \<and> \<not> isnan (tms ! m)} = {}"
        using mem True by simp
      show ?thesis unfolding step stp memSuc e by simp
    next
      case ne: False
      with lst have last: "(ld, lt) = last rows" by simp
      then have lastin: "(ld, lt) \<in> set rows" using ne by simp
      then obtain m where m: "m < n" "\<not> isnan (tms ! m)" "(ld, lt) = (dbs ! m, tms ! m)"
        using mem by auto
      then have nn: "\<not> isnan ld" "\<not> isnan lt" using D [of m] nN by auto
      show ?thesis
      proof (cases "(ld, lt) = ?r")
        case True
        then have "ramp_step dbs tms n (ld, lt, rows) = (ld, lt, rows)"
          using nn False dn by (simp add: ramp_step_def d_eq_def)
        moreover have "?r \<in> set rows" using True lastin by simp
        ultimately show ?thesis
          using srt mem lst memSuc unfolding step by (simp add: insert_absorb)
      next
        case neq: False
        then have stp: "ramp_step dbs tms n (ld, lt, rows) = (dbs ! n, tms ! n, rows @ [?r])"
          using nn False dn by (auto simp: ramp_step_def d_eq_def)
        have lb: "row_before (ld, lt) ?r" using rel [OF lastin] neq by blast
        have "row_before x ?r" if x: "x \<in> set rows" for x
        proof (cases "x = (ld, lt)")
          case True
          with lb show ?thesis by simp
        next
          case xne: False
          from x obtain i where i: "i < length rows" "x = rows ! i"
            by (auto simp: in_set_conv_nth)
          with xne last ne have "i < length rows - 1"
            by (cases "i = length rows - 1") (auto simp: last_conv_nth)
          with srt i ne have "row_before x (last rows)"
            by (auto simp: last_conv_nth sorted_wrt_iff_nth_less)
          with last lb show ?thesis by (auto intro: row_before_trans)
        qed
        then have "sorted_wrt row_before (rows @ [?r])"
          using srt by (simp add: sorted_wrt_append)
        then show ?thesis using mem memSuc unfolding step stp by simp
      qed
    qed
  qed
qed

subsection \<open>Runs that reach dumpRamps\<close>

lemma scan_append:
  "scan nes k r len j (cs1 @ cs2) tb =
     (case scan nes k r len j cs1 tb of
        Inl a \<Rightarrow> Inl a
      | Inr tb' \<Rightarrow> scan nes k r len (j + int (length cs1)) cs2 tb')"
proof (induction cs1 arbitrary: j tb)
  case Nil
  then show ?case by simp
next
  case (Cons x xs)
  have eq: "j + 1 + int (length xs) = j + int (length (x # xs))" by simp
  show ?case
    by (simp add: Cons.IH eq split: sum.splits del: of_nat_Suc)
qed

lemma main_tables_Inr:
  assumes "main_tables e = Inr tb"
  obtains k q where "afGetRate e = Fin q" "q \<in> set supported_rates"
    "chunkSamples_of (afGetRate e) = Some k" "k = \<lfloor>q / 10\<rfloor>"
    "track_length (afGetFrameCount e) (afGetRate e) = Fin (of_int (afGetFrameCount e) / q + 1 / 10)"
    "scan (GAIN_NOT_ENOUGH_SAMPLES e) k (Fin q)
       (track_length (afGetFrameCount e) (afGetRate e)) 0 (chunks e) initial = Inr tb"
proof -
  from assms obtain k r len where st: "startup e = Inr (k, r, len)"
    and sc: "scan (GAIN_NOT_ENOUGH_SAMPLES e) k r len 0 (chunks e) initial = Inr tb"
    by (auto simp: main_tables_def split: sum.splits)
  from st obtain q where q: "afGetRate e = Fin q" "q \<in> set supported_rates" "r = Fin q"
    "k = \<lfloor>q / 10\<rfloor>" "len = Fin (of_int (afGetFrameCount e) / q + 1 / 10)"
    by (rule startup_Inr)
  from q(2) have pos: "0 < q" using supported_rates_bounds [of q] by simp
  have tl: "track_length (afGetFrameCount e) (afGetRate e) = len"
    using q pos by (simp add: track_length_def chunkSeconds_def)
  have cs: "chunkSamples_of (afGetRate e) = Some k"
    using st q by (auto simp: startup_def Let_def split: if_splits option.splits)
  show thesis
    using that [of q k] q tl cs sc by simp
qed

lemma run_times:
  assumes "main_tables e = Inr tb"
  shows "\<exists>k q L. 0 < q \<and> 0 \<le> k \<and>
    track_length (afGetFrameCount e) (afGetRate e) = Fin L \<and>
    (\<forall>j < length (chunks e). chunk_time e j = Fin (of_int (int j * k) / q))"
proof -
  from assms obtain k q where q: "afGetRate e = Fin q" "q \<in> set supported_rates"
    "chunkSamples_of (afGetRate e) = Some k" "k = \<lfloor>q / 10\<rfloor>"
    "track_length (afGetFrameCount e) (afGetRate e) = Fin (of_int (afGetFrameCount e) / q + 1 / 10)"
    "scan (GAIN_NOT_ENOUGH_SAMPLES e) k (Fin q)
       (track_length (afGetFrameCount e) (afGetRate e)) 0 (chunks e) initial = Inr tb"
    by (rule main_tables_Inr)
  from q(2) have pos: "0 < q" using supported_rates_bounds [of q] by simp
  from q(2,4) have k: "0 \<le> k" "k \<le> 4800" using chunkSamples_bounds [of q] by simp_all
  from scan_length [OF q(6)] have len: "int (length (chunks e)) \<le> 2 ^ 31 - 1" by simp
  have "chunk_time e j = Fin (of_int (int j * k) / q)" if "j < length (chunks e)" for j
  proof -
    from that len have "int j < 2 ^ 31" by simp
    then show ?thesis
      using chunkTime_of_Fin [of "int j" k q] k pos q(1,3) by (simp add: chunk_time_def)
  qed
  with pos k(1) q(5) show ?thesis by blast
qed

lemma run_rows:
  assumes "main_tables e = Inr tb"
  shows "wf_tables tb \<and>
    (\<forall>i < points.
       start_row tb i =
         (case first_index (reaches i) (chunks e) of
            None \<Rightarrow> (db ! i, NaN)
          | Some j \<Rightarrow> (vol_of (chunks e ! j), chunk_time e j)) \<and>
       end_row tb i =
         (case last_index (reaches i) (chunks e) of
            None \<Rightarrow> (db ! i, NaN)
          | Some j \<Rightarrow> (vol_of (chunks e ! j),
              d_sub (track_length (afGetFrameCount e) (afGetRate e)) (chunk_time e j))))"
proof -
  from assms obtain k q where q: "afGetRate e = Fin q" "q \<in> set supported_rates"
    "chunkSamples_of (afGetRate e) = Some k" "k = \<lfloor>q / 10\<rfloor>"
    "track_length (afGetFrameCount e) (afGetRate e) = Fin (of_int (afGetFrameCount e) / q + 1 / 10)"
    "scan (GAIN_NOT_ENOUGH_SAMPLES e) k (Fin q)
       (track_length (afGetFrameCount e) (afGetRate e)) 0 (chunks e) initial = Inr tb"
    by (rule main_tables_Inr)
  from run_times [OF assms] obtain k' q' where
    t: "\<forall>j < length (chunks e). chunk_time e j = Fin (of_int (int j * k') / q')"
    by blast
  have ct: "chunkTime_of k (Fin q) (int j) = chunk_time e j" for j
    using q(1,3) by (simp add: chunk_time_def)
  have "\<forall>j < length (chunks e). \<not> isnan (chunkTime_of k (Fin q) (int j))"
    using t by (simp add: ct)
  from scan_rows [OF q(6) this] show ?thesis
    by (simp add: ct cong: option.case_cong)
qed

lemma startup_chunks [simp]: "startup (e\<lparr> chunks := cs \<rparr>) = startup e"
  by (simp add: startup_def Let_def cong: option.case_cong if_cong)

lemma chunk_time_chunks [simp]: "chunk_time (e\<lparr> chunks := cs \<rparr>) j = chunk_time e j"
  by (simp add: chunk_time_def cong: option.case_cong)

lemma tables_after_all: "length (chunks e) \<le> n \<Longrightarrow> tables_after e n = main_tables e"
  by (simp add: tables_after_def)

lemma tables_after_prefix:
  assumes "main_tables e = Inr tb"
  shows "\<exists>tb'. tables_after e n = Inr tb'"
proof -
  from assms obtain k r len where st: "startup e = Inr (k, r, len)"
    and sc: "scan (GAIN_NOT_ENOUGH_SAMPLES e) k r len 0 (chunks e) initial = Inr tb"
    by (auto simp: main_tables_def split: sum.splits)
  have "chunks e = take n (chunks e) @ drop n (chunks e)" by simp
  with sc have "scan (GAIN_NOT_ENOUGH_SAMPLES e) k r len 0
      (take n (chunks e) @ drop n (chunks e)) initial = Inr tb" by simp
  then obtain tb' where "scan (GAIN_NOT_ENOUGH_SAMPLES e) k r len 0 (take n (chunks e)) initial = Inr tb'"
    unfolding scan_append by (auto split: sum.splits)
  then show ?thesis
    by (simp add: tables_after_def main_tables_def st)
qed

subsection \<open>The order of the rows of a run\<close>

lemma reaches_not_nan: "i < points \<Longrightarrow> reaches i c \<Longrightarrow> \<not> isnan (vol_of c)"
  unfolding reaches_def d_ge_def using d_le_not_nan by blast

lemma reach_gap:
  assumes "i < j" "j < points" "reaches i a" "\<not> reaches j a" "reaches j b"
  shows "d_lt (vol_of a) (vol_of b)"
proof -
  have na: "\<not> isnan (vol_of a)" using assms reaches_not_nan [of i a] by simp
  have nj: "\<not> isnan (db ! j)" using assms db_not_nan by simp
  from assms(4) have "\<not> d_le (db ! j) (vol_of a)" by (simp add: reaches_def d_ge_def)
  then have "d_lt (vol_of a) (db ! j)" using nj na by (rule not_le_imp_lt)
  moreover from assms(5) have "d_le (db ! j) (vol_of b)" by (simp add: reaches_def d_ge_def)
  ultimately show ?thesis by (rule d_lt_le_trans)
qed

lemma start_facts:
  assumes run: "main_tables e = Inr tb" and i: "i < points"
  shows "start_set tb i \<longleftrightarrow> first_index (reaches i) (chunks e) \<noteq> None"
    and "first_index (reaches i) (chunks e) = Some j \<Longrightarrow>
           start_row tb i = (vol_of (chunks e ! j), chunk_time e j)"
    and "first_index (reaches i) (chunks e) = None \<Longrightarrow> start_row tb i = (db ! i, NaN)"
proof -
  from run_times [OF run] obtain k q where
    t: "\<forall>j < length (chunks e). chunk_time e j = Fin (of_int (int j * k) / q)"
    by blast
  from run_rows [OF run] i have r: "start_row tb i =
         (case first_index (reaches i) (chunks e) of
            None \<Rightarrow> (db ! i, NaN)
          | Some j \<Rightarrow> (vol_of (chunks e ! j), chunk_time e j))"
    by simp
  show "start_set tb i \<longleftrightarrow> first_index (reaches i) (chunks e) \<noteq> None"
  proof (cases "first_index (reaches i) (chunks e)")
    case None
    with r show ?thesis by (simp add: start_row_def start_set_def)
  next
    case (Some j)
    then have "j < length (chunks e)" by (simp add: first_index_Some)
    with t have "\<not> isnan (chunk_time e j)" by simp
    with r Some show ?thesis by (simp add: start_row_def start_set_def)
  qed
  show "first_index (reaches i) (chunks e) = Some j \<Longrightarrow>
           start_row tb i = (vol_of (chunks e ! j), chunk_time e j)"
    using r by simp
  show "first_index (reaches i) (chunks e) = None \<Longrightarrow> start_row tb i = (db ! i, NaN)"
    using r by simp
qed

lemma end_facts:
  assumes run: "main_tables e = Inr tb" and i: "i < points"
  shows "end_set tb i \<longleftrightarrow> last_index (reaches i) (chunks e) \<noteq> None"
    and "last_index (reaches i) (chunks e) = Some j \<Longrightarrow>
           end_row tb i = (vol_of (chunks e ! j),
             d_sub (track_length (afGetFrameCount e) (afGetRate e)) (chunk_time e j))"
    and "last_index (reaches i) (chunks e) = None \<Longrightarrow> end_row tb i = (db ! i, NaN)"
proof -
  from run_times [OF run] obtain k q L where
    L: "track_length (afGetFrameCount e) (afGetRate e) = Fin L" and
    t: "\<forall>j < length (chunks e). chunk_time e j = Fin (of_int (int j * k) / q)"
    by blast
  from run_rows [OF run] i have r: "end_row tb i =
         (case last_index (reaches i) (chunks e) of
            None \<Rightarrow> (db ! i, NaN)
          | Some j \<Rightarrow> (vol_of (chunks e ! j),
              d_sub (track_length (afGetFrameCount e) (afGetRate e)) (chunk_time e j)))"
    by simp
  show "end_set tb i \<longleftrightarrow> last_index (reaches i) (chunks e) \<noteq> None"
  proof (cases "last_index (reaches i) (chunks e)")
    case None
    with r show ?thesis by (simp add: end_row_def end_set_def)
  next
    case (Some j)
    then have "j < length (chunks e)" by (simp add: last_index_Some)
    with t L have "\<not> isnan (d_sub (track_length (afGetFrameCount e) (afGetRate e)) (chunk_time e j))"
      by (simp add: d_sub_def)
    with r Some show ?thesis by (simp add: end_row_def end_set_def)
  qed
  show "last_index (reaches i) (chunks e) = Some j \<Longrightarrow>
           end_row tb i = (vol_of (chunks e ! j),
             d_sub (track_length (afGetFrameCount e) (afGetRate e)) (chunk_time e j))"
    using r by simp
  show "last_index (reaches i) (chunks e) = None \<Longrightarrow> end_row tb i = (db ! i, NaN)"
    using r by simp
qed

lemma chunk_time_mono:
  assumes run: "main_tables e = Inr tb" and "a \<le> b" "b < length (chunks e)"
  shows "d_le (chunk_time e a) (chunk_time e b)"
    and "d_le (d_sub (track_length (afGetFrameCount e) (afGetRate e)) (chunk_time e b))
              (d_sub (track_length (afGetFrameCount e) (afGetRate e)) (chunk_time e a))"
proof -
  from run_times [OF run] obtain k q L where q: "0 < q" and k: "0 \<le> k" and
    L: "track_length (afGetFrameCount e) (afGetRate e) = Fin L" and
    t: "\<forall>j < length (chunks e). chunk_time e j = Fin (of_int (int j * k) / q)"
    by blast
  have "int a * k \<le> int b * k" using assms(2) k by (simp add: mult_right_mono)
  then have "(of_int (int a * k) :: rat) \<le> of_int (int b * k)" by (simp only: of_int_le_iff)
  then have le: "(of_int (int a * k) :: rat) / q \<le> of_int (int b * k) / q"
    using q by (simp add: divide_right_mono)
  have ta: "chunk_time e a = Fin (of_int (int a * k) / q)"
    and tb: "chunk_time e b = Fin (of_int (int b * k) / q)"
    using t assms(2,3) by simp_all
  show "d_le (chunk_time e a) (chunk_time e b)"
    unfolding ta tb using le by simp
  show "d_le (d_sub (track_length (afGetFrameCount e) (afGetRate e)) (chunk_time e b))
              (d_sub (track_length (afGetFrameCount e) (afGetRate e)) (chunk_time e a))"
    unfolding ta tb L using le by (simp add: d_sub_def)
qed

lemma start_down:
  assumes run: "main_tables e = Inr tb" and ij: "i \<le> j" "j < points" and s: "start_set tb j"
  shows "start_set tb i"
proof -
  from s start_facts(1) [OF run ij(2)] obtain b where
    "first_index (reaches j) (chunks e) = Some b" by auto
  then have "b < length (chunks e)" "reaches j (chunks e ! b)"
    by (simp_all add: first_index_Some)
  then have "\<exists>x \<in> set (chunks e). reaches i x"
    using reaches_down [OF ij] by (auto intro: nth_mem)
  then have "first_index (reaches i) (chunks e) \<noteq> None"
    by (simp add: first_index_None)
  with start_facts(1) [OF run, of i] ij show ?thesis by simp
qed

lemma end_down:
  assumes run: "main_tables e = Inr tb" and ij: "i \<le> j" "j < points" and s: "end_set tb j"
  shows "end_set tb i"
proof -
  from s end_facts(1) [OF run ij(2)] obtain b where
    "last_index (reaches j) (chunks e) = Some b" by auto
  then have "b < length (chunks e)" "reaches j (chunks e ! b)"
    by (simp_all add: last_index_Some)
  then have "\<exists>x \<in> set (chunks e). reaches i x"
    using reaches_down [OF ij] by (auto intro: nth_mem)
  then have "last_index (reaches i) (chunks e) \<noteq> None"
    by (simp add: last_index_None)
  with end_facts(1) [OF run, of i] ij show ?thesis by simp
qed

lemma start_rows_ordered:
  assumes run: "main_tables e = Inr tb" and ij: "i < j" "j < points"
    and s: "start_set tb i" "start_set tb j"
  shows "start_row tb i = start_row tb j \<or> row_before (start_row tb i) (start_row tb j)"
proof -
  let ?cs = "chunks e"
  have i: "i < points" using ij by simp
  from s start_facts(1) [OF run i] start_facts(1) [OF run ij(2)] obtain a b where
    a: "first_index (reaches i) ?cs = Some a" and b: "first_index (reaches j) ?cs = Some b"
    by auto
  from a have a': "a < length ?cs" "reaches i (?cs ! a)" "\<forall>j' < a. \<not> reaches i (?cs ! j')"
    by (simp_all add: first_index_Some)
  from b have b': "b < length ?cs" "reaches j (?cs ! b)" "\<forall>j' < b. \<not> reaches j (?cs ! j')"
    by (simp_all add: first_index_Some)
  have "reaches i (?cs ! b)" using reaches_down [of i j] ij b'(2) by simp
  with a'(3) have ab: "a \<le> b" by (meson not_le_imp_less)
  have ri: "start_row tb i = (vol_of (?cs ! a), chunk_time e a)"
    using start_facts(2) [OF run i a] .
  have rj: "start_row tb j = (vol_of (?cs ! b), chunk_time e b)"
    using start_facts(2) [OF run ij(2) b] .
  show ?thesis
  proof (cases "a = b")
    case True
    with ri rj show ?thesis by simp
  next
    case False
    with ab have "a < b" by simp
    with b'(3) have "\<not> reaches j (?cs ! a)" by simp
    then have "d_lt (vol_of (?cs ! a)) (vol_of (?cs ! b))"
      using reach_gap [OF ij a'(2) _ b'(2)] by simp
    moreover have "d_le (chunk_time e a) (chunk_time e b)"
      using chunk_time_mono(1) [OF run ab b'(1)] .
    ultimately show ?thesis by (simp add: ri rj row_before_def)
  qed
qed

lemma end_rows_ordered:
  assumes run: "main_tables e = Inr tb" and ij: "i < j" "j < points"
    and s: "end_set tb i" "end_set tb j"
  shows "end_row tb i = end_row tb j \<or> row_before (end_row tb i) (end_row tb j)"
proof -
  let ?cs = "chunks e"
  let ?T = "track_length (afGetFrameCount e) (afGetRate e)"
  have i: "i < points" using ij by simp
  from s end_facts(1) [OF run i] end_facts(1) [OF run ij(2)] obtain a b where
    a: "last_index (reaches i) ?cs = Some a" and b: "last_index (reaches j) ?cs = Some b"
    by auto
  from a have a': "a < length ?cs" "reaches i (?cs ! a)"
    "\<forall>j'. a < j' \<and> j' < length ?cs \<longrightarrow> \<not> reaches i (?cs ! j')"
    by (simp_all add: last_index_Some)
  from b have b': "b < length ?cs" "reaches j (?cs ! b)"
    "\<forall>j'. b < j' \<and> j' < length ?cs \<longrightarrow> \<not> reaches j (?cs ! j')"
    by (simp_all add: last_index_Some)
  have "reaches i (?cs ! b)" using reaches_down [of i j] ij b'(2) by simp
  with a'(3) b'(1) have ba: "b \<le> a" by (meson not_le_imp_less)
  have ri: "end_row tb i = (vol_of (?cs ! a), d_sub ?T (chunk_time e a))"
    using end_facts(2) [OF run i a] .
  have rj: "end_row tb j = (vol_of (?cs ! b), d_sub ?T (chunk_time e b))"
    using end_facts(2) [OF run ij(2) b] .
  show ?thesis
  proof (cases "a = b")
    case True
    with ri rj show ?thesis by simp
  next
    case False
    with ba have "b < a" by simp
    with b'(3) a'(1) have "\<not> reaches j (?cs ! a)" by simp
    then have "d_lt (vol_of (?cs ! a)) (vol_of (?cs ! b))"
      using reach_gap [OF ij a'(2) _ b'(2)] by simp
    moreover have "d_le (d_sub ?T (chunk_time e a)) (d_sub ?T (chunk_time e b))"
      using chunk_time_mono(2) [OF run ba a'(1)] .
    ultimately show ?thesis by (simp add: ri rj row_before_def)
  qed
qed

lemma start_db_not_nan:
  assumes run: "main_tables e = Inr tb" and i: "i < points" and s: "start_set tb i"
  shows "\<not> isnan (start_db tb ! i) \<and> d_ge (start_db tb ! i) (db ! i)"
proof -
  from s start_facts(1) [OF run i] obtain a where
    a: "first_index (reaches i) (chunks e) = Some a" by auto
  then have "reaches i (chunks e ! a)" by (simp add: first_index_Some)
  moreover have "start_db tb ! i = vol_of (chunks e ! a)"
    using start_facts(2) [OF run i a] by (simp add: start_row_def)
  ultimately show ?thesis using reaches_not_nan [OF i] by (simp add: reaches_def)
qed

lemma end_db_not_nan:
  assumes run: "main_tables e = Inr tb" and i: "i < points" and s: "end_set tb i"
  shows "\<not> isnan (end_db tb ! i) \<and> d_ge (end_db tb ! i) (db ! i)"
proof -
  from s end_facts(1) [OF run i] obtain a where
    a: "last_index (reaches i) (chunks e) = Some a" by auto
  then have "reaches i (chunks e ! a)" by (simp add: last_index_Some)
  moreover have "end_db tb ! i = vol_of (chunks e ! a)"
    using end_facts(2) [OF run i a] by (simp add: end_row_def)
  ultimately show ?thesis using reaches_not_nan [OF i] by (simp add: reaches_def)
qed

lemma start_rows_sorted:
  assumes run: "main_tables e = Inr tb"
  shows "sorted_wrt row_before (start_rows tb)"
    and "set (start_rows tb) = {start_row tb m | m. m < points \<and> start_set tb m}"
proof -
  have H: "(start_db tb ! i, start_time tb ! i) = (start_db tb ! j, start_time tb ! j) \<or>
      row_before (start_db tb ! i, start_time tb ! i) (start_db tb ! j, start_time tb ! j)"
    if "i < j" "j < points" "\<not> isnan (start_time tb ! i)" "\<not> isnan (start_time tb ! j)" for i j
    using start_rows_ordered [OF run that(1,2)] that(3,4)
    by (simp add: start_set_def start_row_def)
  have D: "\<not> isnan (start_db tb ! i)" if "i < points" "\<not> isnan (start_time tb ! i)" for i
    using start_db_not_nan [OF run that(1)] that(2) by (simp add: start_set_def)
  from ramp_fold_inv [of points "start_time tb" "start_db tb" points, OF H D]
  show "sorted_wrt row_before (start_rows tb)"
    and "set (start_rows tb) = {start_row tb m | m. m < points \<and> start_set tb m}"
    by (auto simp: start_rows_def ramp_rows_def start_row_def start_set_def split: prod.splits)
qed

lemma end_rows_sorted:
  assumes run: "main_tables e = Inr tb"
  shows "sorted_wrt row_before (end_rows tb)"
    and "set (end_rows tb) = {end_row tb m | m. m < points \<and> end_set tb m}"
proof -
  have H: "(end_db tb ! i, end_time tb ! i) = (end_db tb ! j, end_time tb ! j) \<or>
      row_before (end_db tb ! i, end_time tb ! i) (end_db tb ! j, end_time tb ! j)"
    if "i < j" "j < points" "\<not> isnan (end_time tb ! i)" "\<not> isnan (end_time tb ! j)" for i j
    using end_rows_ordered [OF run that(1,2)] that(3,4)
    by (simp add: end_set_def end_row_def)
  have D: "\<not> isnan (end_db tb ! i)" if "i < points" "\<not> isnan (end_time tb ! i)" for i
    using end_db_not_nan [OF run that(1)] that(2) by (simp add: end_set_def)
  from ramp_fold_inv [of points "end_time tb" "end_db tb" points, OF H D]
  show "sorted_wrt row_before (end_rows tb)"
    and "set (end_rows tb) = {end_row tb m | m. m < points \<and> end_set tb m}"
    by (auto simp: end_rows_def ramp_rows_def end_row_def end_set_def split: prod.splits)
qed

subsection \<open>The worked run, step by step\<close>

lemma ex_startup: "startup ex_env = Inr (800, Fin 8000, Fin (2 / 5))"
  by (simp add: ex_env_def startup_def supported_rates_def chunkSeconds_def trunc_def
      track_length_def chunkSamples_of_def)

lemma ex_chunk1:
  "analyzeChunk (- 24601) (Chunk True (Fin 50)) (Fin 0) (Fin (2 / 5)) initial = Inr ex_tb1"
  by code_simp

lemma ex_chunk2:
  "analyzeChunk (- 24601) (Chunk True (Fin 0)) (Fin (1 / 10)) (Fin (2 / 5)) ex_tb1 = Inr ex_tb2"
  by code_simp

lemma ex_chunk3:
  "analyzeChunk (- 24601) (Chunk True (Fin 50)) (Fin (1 / 5)) (Fin (2 / 5)) ex_tb2 = Inr ex_tb3"
  by code_simp

lemma ex_times:
  "chunkTime_of 800 (Fin 8000) 0 = Fin 0"
  "chunkTime_of 800 (Fin 8000) 1 = Fin (1 / 10)"
  "chunkTime_of 800 (Fin 8000) 2 = Fin (1 / 5)"
  by (simp_all add: chunkTime_of_def)

lemma ex_tables: "main_tables ex_env = Inr ex_tb3"
  by (simp add: main_tables_def ex_startup ex_times ex_chunk1 ex_chunk2 ex_chunk3)
     (simp add: ex_env_def ex_times ex_chunk1 ex_chunk2 ex_chunk3)

lemma ex_start_rows: "start_rows ex_tb3 = [(Fin (- 50), Fin 0), (Fin 0, Fin (1 / 10))]"
  by code_simp

lemma ex_end_rows: "end_rows ex_tb3 = [(Fin (- 50), Fin (1 / 5)), (Fin 0, Fin (3 / 10))]"
  by code_simp

lemma ex_printf:
  "printf_2f (Fin (- 50)) = ''-50.00''"
  "printf_2f (Fin 0) = ''0.00''"
  "printf_2f (Fin (1 / 10)) = ''0.10''"
  "printf_2f (Fin (1 / 5)) = ''0.20''"
  "printf_2f (Fin (3 / 10)) = ''0.30''"
  by (simp_all add: round_even_def Let_def digit_def decimal.simps)

lemma ex_dump: "dumpRamps ex_tb3 =
  ''MIXRAMP_START=-50.00 0.00;0.00 0.10;'' @ newline @ ''MIXRAMP_END=-50.00 0.20;0.00 0.30;'' @ newline"
  unfolding dumpRamps_def ex_start_rows ex_end_rows
  by (simp add: printf_row_def ex_printf del: printf_2f.simps)

subsection \<open>The state after a number of chunks\<close>

lemma tables_after_env:
  "tables_after e n = Inr tb \<Longrightarrow> main_tables (e\<lparr> chunks := take n (chunks e) \<rparr>) = Inr tb"
  by (simp add: tables_after_def)

lemma between_start:
  assumes pt: "tables_after e n = Inr tb" and ij: "i < j" "j < points" and s: "start_set tb j"
  shows "start_set tb i \<and> d_le (start_time tb ! i) (start_time tb ! j)"
proof -
  let ?e = "e\<lparr> chunks := take n (chunks e) \<rparr>"
  have run: "main_tables ?e = Inr tb" using pt by (rule tables_after_env)
  have si: "start_set tb i" using start_down [OF run _ ij(2) s] ij(1) by simp
  from start_rows_ordered [OF run ij si s]
  have "d_le (start_time tb ! i) (start_time tb ! j)"
  proof
    assume "start_row tb i = start_row tb j"
    then have "start_time tb ! i = start_time tb ! j" by (simp add: start_row_def)
    moreover have "\<not> isnan (start_time tb ! j)" using s by (simp add: start_set_def)
    ultimately show ?thesis by (simp add: d_le_refl)
  next
    assume "row_before (start_row tb i) (start_row tb j)"
    then show ?thesis by (simp add: row_before_def start_row_def)
  qed
  with si show ?thesis by simp
qed

lemma between_end:
  assumes pt: "tables_after e n = Inr tb" and ij: "i < j" "j < points" and s: "end_set tb j"
  shows "end_set tb i \<and> d_le (end_time tb ! i) (end_time tb ! j)"
proof -
  let ?e = "e\<lparr> chunks := take n (chunks e) \<rparr>"
  have run: "main_tables ?e = Inr tb" using pt by (rule tables_after_env)
  have si: "end_set tb i" using end_down [OF run _ ij(2) s] ij(1) by simp
  from end_rows_ordered [OF run ij si s]
  have "d_le (end_time tb ! i) (end_time tb ! j)"
  proof
    assume "end_row tb i = end_row tb j"
    then have "end_time tb ! i = end_time tb ! j" by (simp add: end_row_def)
    moreover have "\<not> isnan (end_time tb ! j)" using s by (simp add: end_set_def)
    ultimately show ?thesis by (simp add: d_le_refl)
  next
    assume "row_before (end_row tb i) (end_row tb j)"
    then show ?thesis by (simp add: row_before_def end_row_def)
  qed
  with si show ?thesis by simp
qed

text \<open>Every time recorded before chunk \<open>n\<close> is on the right side of the time of chunk \<open>n\<close>.\<close>

lemma earlier_times:
  assumes run: "main_tables e = Inr tbf" and n: "n < length (chunks e)"
    and pt: "tables_after e n = Inr tb" and i: "i < points"
  shows "start_set tb i \<Longrightarrow> d_le (start_time tb ! i) (chunk_time e n)"
    and "end_set tb i \<Longrightarrow>
      d_le (d_sub (track_length (afGetFrameCount e) (afGetRate e)) (chunk_time e n))
           (end_time tb ! i)"
proof -
  let ?e = "e\<lparr> chunks := take n (chunks e) \<rparr>"
  have run': "main_tables ?e = Inr tb" using pt by (rule tables_after_env)
  {
    assume "start_set tb i"
    with start_facts(1) [OF run' i] obtain a where
      a: "first_index (reaches i) (chunks ?e) = Some a" by auto
    then have "a < length (chunks ?e)" by (simp add: first_index_Some)
    then have an: "a \<le> n" by simp
    have "start_time tb ! i = chunk_time e a"
      using start_facts(2) [OF run' i a] by (simp add: start_row_def)
    then show "d_le (start_time tb ! i) (chunk_time e n)"
      using chunk_time_mono(1) [OF run an n] by simp
  }
  {
    assume "end_set tb i"
    with end_facts(1) [OF run' i] obtain a where
      a: "last_index (reaches i) (chunks ?e) = Some a" by auto
    then have "a < length (chunks ?e)" by (simp add: last_index_Some)
    then have an: "a \<le> n" by simp
    have "end_time tb ! i =
        d_sub (track_length (afGetFrameCount e) (afGetRate e)) (chunk_time e a)"
      using end_facts(2) [OF run' i a] by (simp add: end_row_def)
    then show "d_le (d_sub (track_length (afGetFrameCount e) (afGetRate e)) (chunk_time e n))
           (end_time tb ! i)"
      using chunk_time_mono(2) [OF run an n] by simp
  }
qed

lemma chunk_time_not_nan:
  assumes run: "main_tables e = Inr tbf" and n: "n < length (chunks e)"
  shows "\<not> isnan (chunk_time e n)"
    and "\<not> isnan (d_sub (track_length (afGetFrameCount e) (afGetRate e)) (chunk_time e n))"
  using chunk_time_mono [OF run le_refl n] d_le_not_nan by blast+

lemma first_index_take:
  assumes "first_index P (take n xs) = Some a" and "n \<le> m"
  shows "first_index P (take m xs) = Some a" and "a < n" and "a < length xs"
    and "P (xs ! a)" and "\<forall>j' < a. \<not> P (xs ! j')"
proof -
  have "a < length (take n xs) \<and> P (take n xs ! a) \<and>
    (\<forall>j' < a. \<not> P (take n xs ! j'))"
    using assms(1) first_index_Some [of P "take n xs" a] by blast
  then have a: "a < length (take n xs)" "P (take n xs ! a)"
    "\<forall>j' < a. \<not> P (take n xs ! j')"
    by blast+
  from a(1) show an: "a < n" and al: "a < length xs" by simp_all
  from a(2) an show pa: "P (xs ! a)" by simp
  from a(3) an show pj: "\<forall>j' < a. \<not> P (xs ! j')" by simp
  from an al pa pj assms(2) show "first_index P (take m xs) = Some a"
    by (simp add: first_index_Some)
qed

lemma last_index_take_Suc:
  assumes "m < length xs" and "P (xs ! m)"
  shows "last_index P (take (Suc m) xs) = Some m"
  using assms by (simp add: take_Suc_conv_app_nth last_index_snoc)

text \<open>
  The states named by \<open>tables_after\<close> and \<open>scan_point\<close> are the states the run passes
  through: the run continues from \<open>tables_after e n\<close> with the remaining chunks, and one
  call of \<^verbatim>\<open>analyzeChunk\<close> leads from \<open>tables_after e n\<close> through the points
  \<open>scan_point e n m1 m2\<close> to \<open>tables_after e (Suc n)\<close>.
\<close>

lemma main_tables_through:
  assumes "startup e = Inr (k, r, len)"
  shows "main_tables e =
    (case tables_after e n of
       Inl a \<Rightarrow> Inl a
     | Inr tb \<Rightarrow>
         scan (GAIN_NOT_ENOUGH_SAMPLES e) k r len (int (length (take n (chunks e))))
           (drop n (chunks e)) tb)"
proof -
  have "scan (GAIN_NOT_ENOUGH_SAMPLES e) k r len 0 (take n (chunks e) @ drop n (chunks e)) initial =
    (case scan (GAIN_NOT_ENOUGH_SAMPLES e) k r len 0 (take n (chunks e)) initial of
       Inl a \<Rightarrow> Inl a
     | Inr tb \<Rightarrow>
         scan (GAIN_NOT_ENOUGH_SAMPLES e) k r len (0 + int (length (take n (chunks e))))
           (drop n (chunks e)) tb)"
    by (rule scan_append)
  then show ?thesis
    using assms by (simp add: main_tables_def tables_after_def cong: sum.case_cong)
qed

lemma scan_point_full:
  assumes pt: "tables_after e n = Inr tb" and n: "n < length (chunks e)"
    and nx: "tables_after e (Suc n) = Inr tb'"
  shows "scan_point e n points points = Inr tb'"
proof -
  from nx obtain k r len where st: "startup e = Inr (k, r, len)"
    and sc: "scan (GAIN_NOT_ENOUGH_SAMPLES e) k r len 0 (take (Suc n) (chunks e)) initial = Inr tb'"
    by (auto simp: tables_after_def main_tables_def split: sum.splits)
  from pt st have sc0: "scan (GAIN_NOT_ENOUGH_SAMPLES e) k r len 0 (take n (chunks e)) initial = Inr tb"
    by (simp add: tables_after_def main_tables_def)
  have tk: "take (Suc n) (chunks e) = take n (chunks e) @ [chunks e ! n]"
    using n by (rule take_Suc_conv_app_nth)
  have ln: "length (take n (chunks e)) = n" using n by simp
  from sc have a: "analyzeChunk (GAIN_NOT_ENOUGH_SAMPLES e) (chunks e ! n)
      (chunkTime_of k r (int n)) len tb = Inr tb'"
    unfolding tk scan_snoc sc0 using n
    by (auto simp: min_absorb2 split: sum.splits if_splits)
  from st obtain q where q: "afGetRate e = Fin q" "q \<in> set supported_rates" "r = Fin q"
    "k = \<lfloor>q / 10\<rfloor>" "len = Fin (of_int (afGetFrameCount e) / q + 1 / 10)"
    by (rule startup_Inr)
  have pos: "0 < q" using supported_rates_bounds [OF q(2)] by simp
  have ct: "chunk_time e n = chunkTime_of k r (int n)"
    using q chunkSamples_of_supported [OF q(2)] by (simp add: chunk_time_def)
  have tl: "track_length (afGetFrameCount e) (afGetRate e) = len"
    using q pos by (simp add: track_length_def chunkSeconds_def)
  from a show ?thesis
    by (simp add: scan_point_def pt n ct tl analyzeChunk_Inr)
qed

lemma ex_after2: "tables_after ex_env 2 = Inr ex_tb2"
  by (simp add: tables_after_def main_tables_def ex_startup)
     (simp add: ex_env_def ex_times ex_chunk1 ex_chunk2 numeral_2_eq_2)

lemma ex_after3: "tables_after ex_env 3 = Inr ex_tb3"
  using tables_after_all [of ex_env 3] by (simp add: ex_tables) (simp add: ex_env_def)

lemma ex_chunk_time:
  "chunk_time ex_env 0 = Fin 0"
  "chunk_time ex_env 1 = Fin (1 / 10)"
  "chunk_time ex_env 2 = Fin (1 / 5)"
  by (simp_all add: chunk_time_def chunkSamples_of_def chunkSeconds_def trunc_def
      chunkTime_of_def ex_env_def)

lemma ex_track_length:
  "track_length (afGetFrameCount ex_env) (afGetRate ex_env) = Fin (2 / 5)"
  by (simp add: track_length_def chunkSeconds_def ex_env_def)

lemma ex_mid_folds:
  "fold (end_step (Fin (- 50)) (Fin (1 / 5)) (Fin (2 / 5))) [0..<1]
     (fold (start_step (Fin (- 50)) (Fin (1 / 5))) [0..<15] ex_tb2) = ex_mid"
  by code_simp

lemma ex_scan_point: "scan_point ex_env 2 15 1 = Inr ex_mid"
proof -
  have v: "vol_of (chunks ex_env ! 2) = Fin (- 50)" by (simp add: ex_env_def vol_of_def)
  have l: "2 < length (chunks ex_env)" by (simp add: ex_env_def)
  show ?thesis
    unfolding scan_point_def ex_after2 sum.case v ex_chunk_time ex_track_length ex_mid_folds
    using l by simp
qed

subsection \<open>When a run succeeds and when the engine stops it\<close>

lemma startup_setup_ok:
  "(\<exists>x. startup e = Inr x) \<longleftrightarrow> setup_ok e"
proof
  assume "\<exists>x. startup e = Inr x"
  then show "setup_ok e"
    by (auto simp: startup_def setup_ok_def Let_def split: if_splits option.splits)
next
  assume ok: "setup_ok e"
  then obtain q where q: "afGetRate e = Fin q" "q \<in> set supported_rates"
    by (cases "afGetRate e") (auto simp: setup_ok_def)
  from ok q chunkSamples_of_supported [OF q(2)] show "\<exists>x. startup e = Inr x"
    by (auto simp: startup_def setup_ok_def Let_def split: if_splits)
qed

lemma analyzeChunk_fine:
  "chunk_fine nes c \<Longrightarrow> \<exists>tb'. analyzeChunk nes c t len tb = Inr tb'"
  by (auto simp: chunk_fine_def analyzeChunk_def Let_def split: option.splits)

lemma analyzeChunk_Inr_fine:
  "analyzeChunk nes c t len tb = Inr tb' \<Longrightarrow> chunk_fine nes c"
  by (auto simp: chunk_fine_def analyzeChunk_def Let_def split: option.splits if_splits)

lemma analyzeChunk_misuse:
  "chunk_misuse nes c \<Longrightarrow> analyzeChunk nes c t len tb = Inl (Exit 1)"
  by (auto simp: chunk_misuse_def analyzeChunk_def Let_def split: option.splits)

lemma scan_fine:
  assumes "\<forall>c \<in> set cs. chunk_fine nes c" and "j + int (length cs) \<le> 2 ^ 31 - 1"
  shows "\<exists>tb'. scan nes k r len j cs tb = Inr tb'"
  using assms
proof (induction cs arbitrary: j tb)
  case Nil
  then show ?case by simp
next
  case (Cons c cs)
  from Cons.prems(1) obtain tb1 where
    a: "analyzeChunk nes c (chunkTime_of k r j) len tb = Inr tb1"
    using analyzeChunk_fine [of nes c "chunkTime_of k r j" len tb] by auto
  from Cons.prems(2) have j: "j \<noteq> 2 ^ 31 - 1" "j + 1 + int (length cs) \<le> 2 ^ 31 - 1"
    by simp_all
  from Cons.IH [OF _ j(2), of tb1] Cons.prems(1) obtain tb' where
    "scan nes k r len (j + 1) cs tb1 = Inr tb'" by auto
  with a j(1) show ?case by simp
qed

lemma scan_Inr_fine:
  "scan nes k r len j cs tb = Inr tb' \<Longrightarrow> \<forall>c \<in> set cs. chunk_fine nes c"
proof (induction cs arbitrary: j tb)
  case Nil
  then show ?case by simp
next
  case (Cons c cs)
  from Cons.prems obtain tb1 where
    a: "analyzeChunk nes c (chunkTime_of k r j) len tb = Inr tb1"
    and rest: "scan nes k r len (j + 1) cs tb1 = Inr tb'"
    by (auto split: sum.splits if_splits)
  from analyzeChunk_Inr_fine [OF a] Cons.IH [OF rest] show ?case by simp
qed

lemma scan_misuse:
  assumes "\<forall>x \<in> set cs. chunk_fine nes x" and "chunk_misuse nes c"
    and "j + int (length cs) \<le> 2 ^ 31 - 1"
  shows "scan nes k r len j (cs @ c # cs') tb = Inl (Exit 1)"
proof -
  from scan_fine [OF assms(1,3)] obtain tb1 where
    "scan nes k r len j cs tb = Inr tb1" by blast
  then show ?thesis
    by (simp add: scan_append analyzeChunk_misuse [OF assms(2)])
qed

lemma main_status:
  "snd (main e) =
     (case startup e of
        Inl a \<Rightarrow> a
      | Inr (k, r, len) \<Rightarrow>
          (case scan (GAIN_NOT_ENOUGH_SAMPLES e) k r len 0 (chunks e) initial of
             Inl a \<Rightarrow> a
           | Inr tb \<Rightarrow> Exit 0))"
  by (simp add: main_def split: sum.splits prod.splits)

lemma main_tables_main:
  "main_tables e = Inr tb \<Longrightarrow>
     main e = (''MIXRAMP_REF=89.00'' @ newline @ dumpRamps tb, Exit 0)"
  by (auto simp: main_def main_tables_def split: sum.splits prod.splits)

subsection \<open>The printed form\<close>

lemma digit_is_digit: "d < 10 \<Longrightarrow> is_digit (digit d)"
proof -
  assume "d < 10"
  then have "d \<in> {0, 1, 2, 3, 4, 5, 6, 7, 8, 9}" by auto
  then show ?thesis by (auto simp: digit_def is_digit_def)
qed

lemma is_digit_not_minus: "is_digit c \<Longrightarrow> c \<noteq> CHR ''-''"
  by (auto simp: is_digit_def)

lemma is_digit_not_newline: "is_digit c \<Longrightarrow> c \<noteq> CHR 0x0A"
  by (auto simp: is_digit_def)

lemma decimal_digits: "decimal n \<noteq> [] \<and> list_all is_digit (decimal n)"
proof (induction n rule: decimal.induct)
  case (1 n)
  show ?case
  proof (cases "n < 10")
    case True
    then show ?thesis
      by (subst (1 2) decimal.simps) (simp add: digit_is_digit)
  next
    case False
    with "1" show ?thesis
      by (subst (1 2) decimal.simps) (simp add: digit_is_digit)
  qed
qed

lemma printf_2f_Fin:
  "printf_2f (Fin q) =
     (if q < 0 then ''-'' else '''') @ decimal (round_even (\<bar>q\<bar> * 100) div 100) @ ''.'' @
       [digit (round_even (\<bar>q\<bar> * 100) mod 100 div 10), digit (round_even (\<bar>q\<bar> * 100) mod 10)]"
  by (simp add: Let_def)

lemma two_decimals_printf: "two_decimals (printf_2f (Fin q))"
proof -
  let ?n = "round_even (\<bar>q\<bar> * 100)"
  let ?ds = "decimal (?n div 100)"
  let ?a = "digit (?n mod 100 div 10)"
  let ?b = "digit (?n mod 10)"
  have ds: "?ds \<noteq> []" "list_all is_digit ?ds" using decimal_digits by simp_all
  have a: "is_digit ?a" by (rule digit_is_digit) simp
  have b: "is_digit ?b" by (rule digit_is_digit) simp
  from ds obtain x xs where x: "?ds = x # xs" by (cases ?ds) auto
  with ds(2) have "x \<noteq> CHR ''-''" using is_digit_not_minus by simp
  then have nominus: "take 1 (?ds @ ''.'' @ [?a, ?b]) \<noteq> ''-''" using x by simp
  have shape: "two_decimals (?ds @ ''.'' @ [?a, ?b])"
    unfolding two_decimals_def using nominus ds a b by (simp add: list_all_iff)
  show ?thesis
  proof (cases "q < 0")
    case True
    then have "printf_2f (Fin q) = ''-'' @ ?ds @ ''.'' @ [?a, ?b]"
      by (simp only: printf_2f_Fin if_True)
    moreover have "two_decimals (''-'' @ ?ds @ ''.'' @ [?a, ?b])"
      unfolding two_decimals_def using ds a b by (simp add: list_all_iff)
    ultimately show ?thesis by simp
  next
    case False
    then have "printf_2f (Fin q) = ?ds @ ''.'' @ [?a, ?b]"
      by (simp only: printf_2f_Fin if_False append_Nil)
    with shape show ?thesis by simp
  qed
qed

lemma printf_2f_no_newline: "CHR 0x0A \<notin> set (printf_2f (Fin q))"
proof -
  let ?n = "round_even (\<bar>q\<bar> * 100)"
  have "list_all is_digit (decimal (?n div 100))" using decimal_digits by simp
  then have "CHR 0x0A \<notin> set (decimal (?n div 100))"
    using is_digit_not_newline by (auto simp: list_all_iff)
  moreover have "digit (?n mod 100 div 10) \<noteq> CHR 0x0A" "digit (?n mod 10) \<noteq> CHR 0x0A"
    using is_digit_not_newline digit_is_digit by simp_all
  ultimately show ?thesis
    by (simp only: printf_2f_Fin) auto
qed

lemma printf_row_no_newline:
  "filter (\<lambda>c. [c] = newline) (printf_row (Fin a, Fin b)) = []"
  using printf_2f_no_newline [of a] printf_2f_no_newline [of b]
  by (auto simp: printf_row_def newline_def filter_empty_conv simp del: printf_2f.simps)

lemma body_no_newline:
  assumes "\<forall>r \<in> set rows. \<exists>a b. r = (Fin a, Fin b)"
  shows "filter (\<lambda>c. [c] = newline) (concat (map printf_row rows)) = []"
  using assms
proof (induction rows)
  case Nil
  then show ?case by simp
next
  case (Cons r rows)
  then obtain a b where "r = (Fin a, Fin b)" by auto
  with Cons show ?case by (simp add: printf_row_no_newline)
qed

lemma d_lt_not_le: "d_lt a b \<Longrightarrow> \<not> d_le b a"
  by (cases a; cases b) auto

lemma chunk_fine_vol: "chunk_fine nes c \<Longrightarrow> \<exists>q. vol_of c = Fin q"
  by (cases "title_gain c") (auto simp: chunk_fine_def vol_of_def)

lemma run_chunks_fine:
  assumes "main_tables e = Inr tb"
  shows "\<forall>c \<in> set (chunks e). chunk_fine (GAIN_NOT_ENOUGH_SAMPLES e) c"
proof -
  from assms obtain k r len where
    "scan (GAIN_NOT_ENOUGH_SAMPLES e) k r len 0 (chunks e) initial = Inr tb"
    by (auto simp: main_tables_def split: sum.splits)
  then show ?thesis by (rule scan_Inr_fine)
qed

lemma rows_finite:
  assumes run: "main_tables e = Inr tb"
    and r: "r \<in> set (start_rows tb) \<union> set (end_rows tb)"
  shows "\<exists>a b. r = (Fin a, Fin b)"
proof -
  from run_times [OF run] obtain k q L where
    L: "track_length (afGetFrameCount e) (afGetRate e) = Fin L" and
    t: "\<forall>j < length (chunks e). chunk_time e j = Fin (of_int (int j * k) / q)"
    by blast
  have vol: "\<exists>q. vol_of (chunks e ! j) = Fin q" if "j < length (chunks e)" for j
    using run_chunks_fine [OF run] that chunk_fine_vol by (meson nth_mem)
  from r show ?thesis
  proof
    assume "r \<in> set (start_rows tb)"
    then obtain m where m: "m < points" "start_set tb m" "r = start_row tb m"
      using start_rows_sorted(2) [OF run] by auto
    from m(2) start_facts(1) [OF run m(1)] obtain j where
      j: "first_index (reaches m) (chunks e) = Some j" by auto
    then have jl: "j < length (chunks e)" by (simp add: first_index_Some)
    from start_facts(2) [OF run m(1) j] m(3) vol [OF jl] t jl show ?thesis by auto
  next
    assume "r \<in> set (end_rows tb)"
    then obtain m where m: "m < points" "end_set tb m" "r = end_row tb m"
      using end_rows_sorted(2) [OF run] by auto
    from m(2) end_facts(1) [OF run m(1)] obtain j where
      j: "last_index (reaches m) (chunks e) = Some j" by auto
    then have jl: "j < length (chunks e)" by (simp add: last_index_Some)
    from end_facts(2) [OF run m(1) j] m(3) vol [OF jl] t jl L show ?thesis
      by (auto simp: d_sub_def)
  qed
qed

lemma silent_no_reach:
  assumes "d_lt (vol_of c) (Fin (- 90))" and "i < points"
  shows "\<not> reaches i c"
proof -
  have "d_le (Fin (- 90)) (db ! i)"
  proof (cases "i = 0")
    case True
    then show ?thesis by (simp add: db_def)
  next
    case False
    then have "d_lt (db ! 0) (db ! i)" using db_less [of 0 i] assms(2) by simp
    then show ?thesis using d_lt_imp_le by (simp add: db_def)
  qed
  with assms(1) have "d_lt (vol_of c) (db ! i)" by (rule d_lt_le_trans)
  then show ?thesis using d_lt_not_le by (simp add: reaches_def d_ge_def)
qed

lemma ex_silent_chunk:
  "analyzeChunk (- 24601) (Chunk True (Fin 100)) (Fin 0) (Fin (2 / 5)) initial = Inr initial"
  by code_simp

lemma ex_silent_tables:
  "main_tables (ex_env\<lparr> chunks := [Chunk True (Fin 100)] \<rparr>) = Inr initial"
  by (simp add: main_tables_def ex_startup)
     (simp add: ex_env_def ex_times ex_silent_chunk)

lemma ex_empty_tables: "main_tables (ex_env\<lparr> chunks := [] \<rparr>) = Inr initial"
  by (simp add: main_tables_def ex_startup)

subsection \<open>The first row of each body\<close>

lemma row_before_asym: "row_before a b \<Longrightarrow> \<not> row_before b a"
  using row_before_trans row_before_neq by blast

lemma sorted_hd_least:
  assumes "sorted_wrt row_before rows" and "r0 \<in> set rows"
    and "\<forall>x \<in> set rows. x = r0 \<or> row_before r0 x"
  shows "\<exists>rs. rows = r0 # rs"
proof (cases rows)
  case Nil
  with assms(2) show ?thesis by simp
next
  case (Cons x xs)
  have "x = r0"
  proof (rule ccontr)
    assume ne: "x \<noteq> r0"
    with assms(2) Cons have "r0 \<in> set xs" by auto
    with assms(1) Cons have "row_before x r0" by auto
    moreover from assms(3) Cons ne have "row_before r0 x" by auto
    ultimately show False using row_before_asym by blast
  qed
  with Cons show ?thesis by simp
qed

lemma first_start_time_eq:
  assumes run: "main_tables e = Inr tb"
  shows "first_start_time e = map_option (chunk_time e) (first_index (reaches 0) (chunks e))"
proof (cases "first_index (reaches 0) (chunks e)")
  case None
  have p0: "0 < points" by (simp add: points_15)
  from None start_facts(1) [OF run p0] have "\<not> start_set tb 0" by simp
  then have "\<not> start_set tb m" if "m < points" for m
    using start_down [OF run _ that, of 0] by auto
  then have "set (start_rows tb) = {}"
    using start_rows_sorted(2) [OF run] by auto
  then show ?thesis using None run by (simp add: first_start_time_def)
next
  case (Some j)
  have p0: "0 < points" by (simp add: points_15)
  from Some start_facts(1) [OF run p0] have s0: "start_set tb 0" by simp
  have r0: "start_row tb 0 = (vol_of (chunks e ! j), chunk_time e j)"
    using start_facts(2) [OF run p0 Some] .
  have mem: "start_row tb 0 \<in> set (start_rows tb)"
    using start_rows_sorted(2) [OF run] s0 p0 by auto
  have least: "\<forall>x \<in> set (start_rows tb). x = start_row tb 0 \<or> row_before (start_row tb 0) x"
  proof
    fix x assume "x \<in> set (start_rows tb)"
    then obtain m where m: "m < points" "start_set tb m" "x = start_row tb m"
      using start_rows_sorted(2) [OF run] by auto
    show "x = start_row tb 0 \<or> row_before (start_row tb 0) x"
    proof (cases "m = 0")
      case True
      with m show ?thesis by simp
    next
      case False
      then have "0 < m" by simp
      from start_rows_ordered [OF run this m(1) s0 m(2)] m(3) show ?thesis by auto
    qed
  qed
  from sorted_hd_least [OF start_rows_sorted(1) [OF run] mem least] obtain rs where
    "start_rows tb = start_row tb 0 # rs" by blast
  then show ?thesis using Some run r0 by (simp add: first_start_time_def)
qed

lemma first_end_time_eq:
  assumes run: "main_tables e = Inr tb"
  shows "first_end_time e =
    map_option (\<lambda>j. d_sub (track_length (afGetFrameCount e) (afGetRate e)) (chunk_time e j))
      (last_index (reaches 0) (chunks e))"
proof (cases "last_index (reaches 0) (chunks e)")
  case None
  have p0: "0 < points" by (simp add: points_15)
  from None end_facts(1) [OF run p0] have "\<not> end_set tb 0" by simp
  then have "\<not> end_set tb m" if "m < points" for m
    using end_down [OF run _ that, of 0] by auto
  then have "set (end_rows tb) = {}"
    using end_rows_sorted(2) [OF run] by auto
  then show ?thesis using None run by (simp add: first_end_time_def)
next
  case (Some j)
  have p0: "0 < points" by (simp add: points_15)
  from Some end_facts(1) [OF run p0] have s0: "end_set tb 0" by simp
  have r0: "end_row tb 0 = (vol_of (chunks e ! j),
      d_sub (track_length (afGetFrameCount e) (afGetRate e)) (chunk_time e j))"
    using end_facts(2) [OF run p0 Some] .
  have mem: "end_row tb 0 \<in> set (end_rows tb)"
    using end_rows_sorted(2) [OF run] s0 p0 by auto
  have least: "\<forall>x \<in> set (end_rows tb). x = end_row tb 0 \<or> row_before (end_row tb 0) x"
  proof
    fix x assume "x \<in> set (end_rows tb)"
    then obtain m where m: "m < points" "end_set tb m" "x = end_row tb m"
      using end_rows_sorted(2) [OF run] by auto
    show "x = end_row tb 0 \<or> row_before (end_row tb 0) x"
    proof (cases "m = 0")
      case True
      with m show ?thesis by simp
    next
      case False
      then have "0 < m" by simp
      from end_rows_ordered [OF run this m(1) s0 m(2)] m(3) show ?thesis by auto
    qed
  qed
  from sorted_hd_least [OF end_rows_sorted(1) [OF run] mem least] obtain rs where
    "end_rows tb = end_row tb 0 # rs" by blast
  then show ?thesis using Some run r0 by (simp add: first_end_time_def)
qed

lemma first_index_append_fail:
  assumes "\<forall>x \<in> set xs. \<not> P x" and "ys \<noteq> []" and "P (hd ys)"
  shows "first_index P (xs @ ys) = Some (length xs)"
  using assms by (auto simp: first_index_Some nth_append hd_conv_nth)

lemma last_index_append_last:
  assumes "ys \<noteq> []" and "P (last ys)"
  shows "last_index P (xs @ ys) = Some (length xs + length ys - 1)"
proof -
  have "(xs @ ys) ! (length xs + length ys - 1) = last ys"
    using assms(1) by (metis last_appendR last_conv_nth append_is_Nil_conv length_append)
  with assms show ?thesis by (auto simp: last_index_Some)
qed

lemma tenth_of_rate:
  "r \<in> set supported_rates \<Longrightarrow> r \<noteq> 11025 \<Longrightarrow> of_int \<lfloor>r / 10\<rfloor> = r / 10"
  by (auto simp: supported_rates_def)

lemma chunk_time_tenths:
  assumes "afGetRate e = Fin r" and "r \<in> set supported_rates" and "r \<noteq> 11025"
    and "j < 2 ^ 31"
  shows "chunk_time e j = Fin (of_nat j / 10)"
proof -
  have pos: "0 < r" using supported_rates_bounds [OF assms(2)] by simp
  have k: "0 \<le> \<lfloor>r / 10\<rfloor>" "\<lfloor>r / 10\<rfloor> \<le> 4800"
    using chunkSamples_bounds [OF assms(2)] by simp_all
  have "chunk_time e j = chunkTime_of \<lfloor>r / 10\<rfloor> (Fin r) (int j)"
    using assms(1) chunkSamples_of_supported [OF assms(2)] by (simp add: chunk_time_def)
  also have "\<dots> = Fin (of_int (int j * \<lfloor>r / 10\<rfloor>) / r)"
    using chunkTime_of_Fin [of "int j" "\<lfloor>r / 10\<rfloor>" r] assms(4) k pos by simp
  also have "of_int (int j * \<lfloor>r / 10\<rfloor>) / r = of_nat j * (r / 10) / r"
  proof -
    have "(of_int (int j * \<lfloor>r / 10\<rfloor>) :: rat) = of_nat j * of_int \<lfloor>r / 10\<rfloor>"
      by simp
    also have "\<dots> = of_nat j * (r / 10)"
      by (simp only: tenth_of_rate [OF assms(2,3)])
    finally show ?thesis by (simp only:)
  qed
  also have "\<dots> = of_nat j / 10" using pos by simp
  finally show ?thesis .
qed

lemma run_succeeds:
  assumes "setup_ok e" and "list_all (chunk_fine (GAIN_NOT_ENOUGH_SAMPLES e)) (chunks e)"
    and "int (length (chunks e)) < 2 ^ 31"
  shows "\<exists>tb. main_tables e = Inr tb"
proof -
  from assms(1) obtain k r len where st: "startup e = Inr (k, r, len)"
    using startup_setup_ok [of e] by auto
  from assms(2,3) have fine: "\<forall>x \<in> set (chunks e). chunk_fine (GAIN_NOT_ENOUGH_SAMPLES e) x"
    and len: "0 + int (length (chunks e)) \<le> 2 ^ 31 - 1"
    by (simp_all add: list_all_iff)
  from scan_fine [OF fine len, of k r len initial] show ?thesis
    by (simp add: main_tables_def st)
qed

lemma silent_then_loud:
  assumes run: "main_tables e = Inr tb"
    and cs: "chunks e = silent @ loud" and ne: "loud \<noteq> []"
    and silent: "list_all (\<lambda>c. d_lt (vol_of c) (Fin (- 90))) silent"
    and loud: "list_all (\<lambda>c. d_ge (vol_of c) (Fin (- 90))) loud"
  shows "first_start_time e = Some (chunk_time e (length silent))"
    and "first_end_time e =
      Some (d_sub (track_length (afGetFrameCount e) (afGetRate e))
             (chunk_time e (length silent + length loud - 1)))"
proof -
  have p0: "0 < points" by (simp add: points_15)
  have s: "\<forall>x \<in> set silent. \<not> reaches 0 x"
    using silent silent_no_reach [OF _ p0] by (auto simp: list_all_iff)
  have l: "\<forall>x \<in> set loud. reaches 0 x"
    using loud by (auto simp: list_all_iff reaches_def db_def)
  from l ne have "reaches 0 (hd loud)" "reaches 0 (last loud)" by simp_all
  then have "first_index (reaches 0) (chunks e) = Some (length silent)"
    and "last_index (reaches 0) (chunks e) = Some (length silent + length loud - 1)"
    unfolding cs using first_index_append_fail [OF s ne] last_index_append_last [OF ne]
    by simp_all
  then show "first_start_time e = Some (chunk_time e (length silent))"
    and "first_end_time e =
      Some (d_sub (track_length (afGetFrameCount e) (afGetRate e))
             (chunk_time e (length silent + length loud - 1)))"
    using first_start_time_eq [OF run] first_end_time_eq [OF run] by simp_all
qed

lemma scenario_C_ok:
  "setup_ok scenario_C"
  "list_all (chunk_fine (GAIN_NOT_ENOUGH_SAMPLES scenario_C)) (chunks scenario_C)"
  "int (length (chunks scenario_C)) < 2 ^ 31"
  by (simp_all add: scenario_C_def setup_ok_def supported_rates_def chunk_fine_def trunc_def
      list_all_iff)

lemma scenario_C_chunks:
  "chunks scenario_C =
     replicate 50 (Chunk True (Fin 100)) @ replicate 50 (Chunk True (Fin (- 7)))"
  "list_all (\<lambda>c. d_lt (vol_of c) (Fin (- 90))) (replicate 50 (Chunk True (Fin 100)))"
  "list_all (\<lambda>c. d_ge (vol_of c) (Fin (- 90))) (replicate 50 (Chunk True (Fin (- 7))))"
  by (simp_all add: scenario_C_def list_all_iff vol_of_def d_ge_def)

lemma scenario_C_times:
  "chunk_time scenario_C 50 = Fin 5"
  "chunk_time scenario_C 99 = Fin (99 / 10)"
  "track_length (afGetFrameCount scenario_C) (afGetRate scenario_C) = Fin (101 / 10)"
  by (simp_all add: chunk_time_def chunkSamples_of_def chunkSeconds_def trunc_def
      chunkTime_of_def track_length_def scenario_C_def)

lemma floor_rat_numeral:
  "\<lfloor>(numeral a :: rat) / numeral b\<rfloor> = numeral a div numeral b"
  using floor_divide_of_int_eq [of "numeral a" "numeral b", where ?'a = rat] by simp

lemma printf_times:
  "printf_2f (Fin 5) = ''5.00''"
  "printf_2f (Fin (1 / 5)) = ''0.20''"
  by (simp_all add: round_even_def Let_def digit_def decimal.simps)

lemma chunk_time_supported:
  assumes "afGetRate e = Fin r" and "r \<in> set supported_rates" and "j < 2 ^ 31"
  shows "chunk_time e j = Fin (of_int (int j * \<lfloor>r / 10\<rfloor>) / r)"
proof -
  have pos: "0 < r" using supported_rates_bounds [OF assms(2)] by simp
  have k: "0 \<le> \<lfloor>r / 10\<rfloor>" "\<lfloor>r / 10\<rfloor> \<le> 4800"
    using chunkSamples_bounds [OF assms(2)] by simp_all
  have "chunk_time e j = chunkTime_of \<lfloor>r / 10\<rfloor> (Fin r) (int j)"
    using assms(1) chunkSamples_of_supported [OF assms(2)] by (simp add: chunk_time_def)
  also have "\<dots> = Fin (of_int (int j * \<lfloor>r / 10\<rfloor>) / r)"
    using chunkTime_of_Fin [of "int j" "\<lfloor>r / 10\<rfloor>" r] assms(3) k pos by simp
  finally show ?thesis .
qed

lemma chunk_time_11025:
  assumes "afGetRate e = Fin 11025"
  shows "chunk_time e 50 = Fin (2204 / 441)" and "chunk_time e 99 = Fin (12122 / 1225)"
proof -
  have r: "(11025 :: rat) \<in> set supported_rates" by (simp add: supported_rates_def)
  show "chunk_time e 50 = Fin (2204 / 441)"
    using chunk_time_supported [OF assms r, of 50] by (simp add: floor_rat_numeral)
  show "chunk_time e 99 = Fin (12122 / 1225)"
    using chunk_time_supported [OF assms r, of 99] by (simp add: floor_rat_numeral)
qed

lemma printf_times_11025:
  "printf_2f (Fin (2204 / 441)) = ''5.00''"
  "printf_2f (Fin (501 / 2450)) = ''0.20''"
  by (simp_all add: round_even_def Let_def digit_def decimal.simps floor_rat_numeral)

lemma scenario_C_11025_ok:
  "setup_ok scenario_C_11025"
  "list_all (chunk_fine (GAIN_NOT_ENOUGH_SAMPLES scenario_C_11025)) (chunks scenario_C_11025)"
  "int (length (chunks scenario_C_11025)) < 2 ^ 31"
  by (simp_all add: scenario_C_11025_def setup_ok_def supported_rates_def chunk_fine_def
      trunc_def list_all_iff)

lemma scenario_C_11025_chunks:
  "chunks scenario_C_11025 =
     replicate 50 (Chunk True (Fin 100)) @ replicate 50 (Chunk True (Fin (- 7)))"
  by (simp add: scenario_C_11025_def)

lemma scenario_C_11025_times:
  "first_start_time scenario_C_11025 = Some (Fin (2204 / 441))"
  "first_end_time scenario_C_11025 = Some (Fin (501 / 2450))"
proof -
  from run_succeeds [OF scenario_C_11025_ok] obtain tb where
    run: "main_tables scenario_C_11025 = Inr tb" by blast
  have ne: "replicate 50 (Chunk True (Fin (- 7))) \<noteq> []" by simp
  have r: "afGetRate scenario_C_11025 = Fin 11025" by (simp add: scenario_C_11025_def)
  have T: "track_length (afGetFrameCount scenario_C_11025) (afGetRate scenario_C_11025) =
      Fin (101 / 10)"
    by (simp add: track_length_def chunkSeconds_def scenario_C_11025_def)
  note sl = silent_then_loud [OF run scenario_C_11025_chunks ne scenario_C_chunks(2,3)]
  show "first_start_time scenario_C_11025 = Some (Fin (2204 / 441))"
    using sl(1) chunk_time_11025(1) [OF r] by simp
  show "first_end_time scenario_C_11025 = Some (Fin (501 / 2450))"
    using sl(2) chunk_time_11025(2) [OF r] T by (simp add: d_sub_def)
qed

subsection \<open>Exit status\<close>

lemma exit_status_paths:
  "(argc e \<noteq> 2 \<longrightarrow> snd (main e) = Exit 1) \<and>
   (argc e = 2 \<and> afOpenFile e = Some errno \<longrightarrow> snd (main e) = Exit (perror e errno)) \<and>
   (argc e = 2 \<and> afOpenFile e = None \<and>
      afGetVirtualChannels e \<noteq> 1 \<and> afGetVirtualChannels e \<noteq> 2 \<longrightarrow>
        snd (main e) = Exit 1) \<and>
   (argc e = 2 \<and> afOpenFile e = None \<and>
      (afGetVirtualChannels e = 1 \<or> afGetVirtualChannels e = 2) \<and>
      \<not> InitGainAnalysis (afGetRate e) \<longrightarrow>
        snd (main e) = Exit 1) \<and>
   (setup_ok e \<and> chunks e = cs @ c # cs' \<and>
      list_all (chunk_fine (GAIN_NOT_ENOUGH_SAMPLES e)) cs \<and>
      chunk_misuse (GAIN_NOT_ENOUGH_SAMPLES e) c \<and> int (length cs) < 2 ^ 31 \<longrightarrow>
        snd (main e) = Exit 1) \<and>
   (setup_ok e \<and> list_all (chunk_fine (GAIN_NOT_ENOUGH_SAMPLES e)) (chunks e) \<and>
      int (length (chunks e)) < 2 ^ 31 \<longrightarrow>
        snd (main e) = Exit 0)"
proof (intro conjI impI)
  assume "argc e \<noteq> 2"
  then show "snd (main e) = Exit 1"
    by (simp add: main_status startup_def)
next
  assume "argc e = 2 \<and> afOpenFile e = Some errno"
  then show "snd (main e) = Exit (perror e errno)"
    by (simp add: main_status startup_def)
next
  assume "argc e = 2 \<and> afOpenFile e = None \<and>
      afGetVirtualChannels e \<noteq> 1 \<and> afGetVirtualChannels e \<noteq> 2"
  then show "snd (main e) = Exit 1"
    by (simp add: main_status startup_def)
next
  assume "argc e = 2 \<and> afOpenFile e = None \<and>
      (afGetVirtualChannels e = 1 \<or> afGetVirtualChannels e = 2) \<and>
      \<not> InitGainAnalysis (afGetRate e)"
  then show "snd (main e) = Exit 1"
    by (auto simp: main_status startup_def Let_def)
next
  assume a: "setup_ok e \<and> chunks e = cs @ c # cs' \<and>
      list_all (chunk_fine (GAIN_NOT_ENOUGH_SAMPLES e)) cs \<and>
      chunk_misuse (GAIN_NOT_ENOUGH_SAMPLES e) c \<and> int (length cs) < 2 ^ 31"
  then obtain k r len where st: "startup e = Inr (k, r, len)"
    using startup_setup_ok [of e] by auto
  from a have fine: "\<forall>x \<in> set cs. chunk_fine (GAIN_NOT_ENOUGH_SAMPLES e) x"
    and mis: "chunk_misuse (GAIN_NOT_ENOUGH_SAMPLES e) c"
    and len: "0 + int (length cs) \<le> 2 ^ 31 - 1"
    by (simp_all add: list_all_iff)
  from a scan_misuse [OF fine mis len, of k r len cs' initial]
  show "snd (main e) = Exit 1"
    by (simp add: main_status st)
next
  assume a: "setup_ok e \<and> list_all (chunk_fine (GAIN_NOT_ENOUGH_SAMPLES e)) (chunks e) \<and>
      int (length (chunks e)) < 2 ^ 31"
  then obtain k r len where st: "startup e = Inr (k, r, len)"
    using startup_setup_ok [of e] by auto
  from a have fine: "\<forall>x \<in> set (chunks e). chunk_fine (GAIN_NOT_ENOUGH_SAMPLES e) x"
    and len: "0 + int (length (chunks e)) \<le> 2 ^ 31 - 1"
    by (simp_all add: list_all_iff)
  from scan_fine [OF fine len, of k r len initial] obtain tb where
    "scan (GAIN_NOT_ENOUGH_SAMPLES e) k r len 0 (chunks e) initial = Inr tb" by blast
  then show "snd (main e) = Exit 0"
    by (simp add: main_status st)
qed

section \<open>The claims\<close>

text \<open>
  C1, as amended. For any two rows emitted in order in the MIXRAMP\_END body, (d1, t1)
  before (d2, t2), the dB values strictly increase (d2 > d1) and the times are
  non-decreasing (t2 \<ge> t1): an end time is the distance of a chunk from the padded end
  of the track, and the last chunk that reaches a higher threshold is not later than the
  last chunk that reaches a lower one.
\<close>

theorem end_rows_monotone:
  assumes "main_tables e = Inr tb" and "i < j" and "j < length (end_rows tb)"
  shows "d_lt (fst (end_rows tb ! i)) (fst (end_rows tb ! j)) \<and>
         d_le (snd (end_rows tb ! i)) (snd (end_rows tb ! j))"
proof -
  have "sorted_wrt row_before (end_rows tb)"
    using assms(1) by (rule end_rows_sorted(1))
  with assms(2,3) have "row_before (end_rows tb ! i) (end_rows tb ! j)"
    by (simp add: sorted_wrt_iff_nth_less)
  then show ?thesis by (simp add: row_before_def)
qed

theorem end_rows_monotone_witness:
  "main_tables ex_env = Inr ex_tb3 \<and> (0 :: nat) < 1 \<and> 1 < length (end_rows ex_tb3) \<and>
   end_rows ex_tb3 = [(Fin (- 50), Fin (1 / 5)), (Fin 0, Fin (3 / 10))] \<and>
   d_lt (fst (end_rows ex_tb3 ! 0)) (fst (end_rows ex_tb3 ! 1)) \<and>
   d_le (snd (end_rows ex_tb3 ! 0)) (snd (end_rows ex_tb3 ! 1))"
  using end_rows_monotone [of ex_env ex_tb3 0 1]
  by (simp add: ex_tables ex_end_rows)

text \<open>
  C1 as the specification states it asks for non-increasing times (t2 \<le> t1). The worked
  run refutes it: its MIXRAMP\_END rows are (-50, 0.20) and then (0, 0.30).
\<close>

theorem end_rows_times_counterexample:
  "main_tables ex_env = Inr ex_tb3 \<and>
   end_rows ex_tb3 = [(Fin (- 50), Fin (1 / 5)), (Fin 0, Fin (3 / 10))] \<and>
   \<not> d_le (snd (end_rows ex_tb3 ! 1)) (snd (end_rows ex_tb3 ! 0))"
  by (simp add: ex_tables ex_end_rows)

text \<open>
  C2, as amended. For an input of 10 seconds whose chunks are silent (loudness below
  -90 dB) for the first 5 seconds and at full-scale-sine loudness (at least -90 dB)
  thereafter, the first emitted MIXRAMP\_START entry has time \<open>\<approx>\<close> 5.00 and the first
  emitted MIXRAMP\_END entry has time \<open>\<approx>\<close> 0.20: the padded length 10.10 minus the start
  time of the last chunk. This holds at every supported sample rate; a time \<open>\<approx> x\<close> is a
  time within 0.005 of \<open>x\<close> that \<^verbatim>\<open>%.2f\<close> prints as \<open>x\<close>. The times are 5 and 0.2 exactly
  except at 11025 Hz, where a chunk is 1102 samples and they are 2204/441 and 501/2450.
\<close>

theorem silence_then_sine_first_entries:
  assumes "setup_ok e"
    and "list_all (chunk_fine (GAIN_NOT_ENOUGH_SAMPLES e)) (chunks e)"
    and "afGetRate e = Fin r"
    and "rat_of_int (afGetFrameCount e) = 10 * r"
    and "chunks e = silent @ loud" and "length silent = 50" and "length loud = 50"
    and "list_all (\<lambda>c. d_lt (vol_of c) (Fin (- 90))) silent"
    and "list_all (\<lambda>c. d_ge (vol_of c) (Fin (- 90))) loud"
  shows "\<exists>ts te. first_start_time e = Some (Fin ts) \<and> first_end_time e = Some (Fin te) \<and>
    \<bar>ts - 5\<bar> \<le> 1 / 200 \<and> \<bar>te - 1 / 5\<bar> \<le> 1 / 200 \<and>
    printf_2f (Fin ts) = ''5.00'' \<and> printf_2f (Fin te) = ''0.20''"
proof -
  have len: "length (chunks e) = 100" using assms(5,6,7) by simp
  then have "int (length (chunks e)) < 2 ^ 31" by simp
  from run_succeeds [OF assms(1,2) this] obtain tb where run: "main_tables e = Inr tb"
    by blast
  have r: "r \<in> set supported_rates"
    using assms(1,3) by (simp add: setup_ok_def)
  then have pos: "0 < r" using supported_rates_bounds [of r] by simp
  have ne: "loud \<noteq> []" using assms(7) by auto
  have T: "track_length (afGetFrameCount e) (afGetRate e) = Fin (101 / 10)"
    using assms(3,4) pos by (simp add: track_length_def chunkSeconds_def)
  note sl = silent_then_loud [OF run assms(5) ne assms(8,9)]
  show ?thesis
  proof (cases "r = 11025")
    case True
    with assms(3) have rate: "afGetRate e = Fin 11025" by simp
    have "first_start_time e = Some (Fin (2204 / 441))"
      using sl(1) assms(6) chunk_time_11025(1) [OF rate] by simp
    moreover have "first_end_time e = Some (Fin (501 / 2450))"
      using sl(2) assms(6,7) chunk_time_11025(2) [OF rate] T by (simp add: d_sub_def)
    moreover have "\<bar>(2204 / 441 :: rat) - 5\<bar> \<le> 1 / 200" "\<bar>(501 / 2450 :: rat) - 1 / 5\<bar> \<le> 1 / 200"
      by simp_all
    ultimately show ?thesis using printf_times_11025 by blast
  next
    case False
    have "first_start_time e = Some (Fin 5)"
      using sl(1) assms(6) chunk_time_tenths [OF assms(3) r False, of 50] by simp
    moreover have "first_end_time e = Some (Fin (1 / 5))"
      using sl(2) assms(6,7) chunk_time_tenths [OF assms(3) r False, of 99] T
      by (simp add: d_sub_def)
    moreover have "\<bar>(5 :: rat) - 5\<bar> \<le> 1 / 200" "\<bar>(1 / 5 :: rat) - 1 / 5\<bar> \<le> 1 / 200"
      by simp_all
    ultimately show ?thesis using printf_times by blast
  qed
qed

theorem silence_then_sine_first_entries_witness:
  "setup_ok scenario_C_11025 \<and>
   list_all (chunk_fine (GAIN_NOT_ENOUGH_SAMPLES scenario_C_11025)) (chunks scenario_C_11025) \<and>
   afGetRate scenario_C_11025 = Fin 11025 \<and>
   rat_of_int (afGetFrameCount scenario_C_11025) = 10 * 11025 \<and>
   chunks scenario_C_11025 =
     replicate 50 (Chunk True (Fin 100)) @ replicate 50 (Chunk True (Fin (- 7))) \<and>
   length (replicate 50 (Chunk True (Fin 100))) = 50 \<and>
   length (replicate 50 (Chunk True (Fin (- 7)))) = 50 \<and>
   list_all (\<lambda>c. d_lt (vol_of c) (Fin (- 90))) (replicate 50 (Chunk True (Fin 100))) \<and>
   list_all (\<lambda>c. d_ge (vol_of c) (Fin (- 90))) (replicate 50 (Chunk True (Fin (- 7)))) \<and>
   first_start_time scenario_C_11025 = Some (Fin (2204 / 441)) \<and>
   first_end_time scenario_C_11025 = Some (Fin (501 / 2450)) \<and>
   \<bar>(2204 / 441 :: rat) - 5\<bar> \<le> 1 / 200 \<and> \<bar>(501 / 2450 :: rat) - 1 / 5\<bar> \<le> 1 / 200 \<and>
   printf_2f (Fin (2204 / 441)) = ''5.00'' \<and> printf_2f (Fin (501 / 2450)) = ''0.20'' \<and>
   setup_ok scenario_C \<and>
   list_all (chunk_fine (GAIN_NOT_ENOUGH_SAMPLES scenario_C)) (chunks scenario_C) \<and>
   afGetRate scenario_C = Fin 44100 \<and>
   rat_of_int (afGetFrameCount scenario_C) = 10 * 44100 \<and>
   chunks scenario_C =
     replicate 50 (Chunk True (Fin 100)) @ replicate 50 (Chunk True (Fin (- 7))) \<and>
   (\<exists>ts te. first_start_time scenario_C = Some (Fin ts) \<and>
      first_end_time scenario_C = Some (Fin te) \<and>
      \<bar>ts - 5\<bar> \<le> 1 / 200 \<and> \<bar>te - 1 / 5\<bar> \<le> 1 / 200 \<and>
      printf_2f (Fin ts) = ''5.00'' \<and> printf_2f (Fin te) = ''0.20'')"
proof -
  have a: "afGetRate scenario_C_11025 = Fin 11025"
    "rat_of_int (afGetFrameCount scenario_C_11025) = 10 * 11025"
    "length (replicate 50 (Chunk True (Fin 100))) = 50"
    "length (replicate 50 (Chunk True (Fin (- 7)))) = 50"
    by (simp_all add: scenario_C_11025_def)
  have b: "afGetRate scenario_C = Fin 44100"
    "rat_of_int (afGetFrameCount scenario_C) = 10 * 44100"
    by (simp_all add: scenario_C_def)
  from silence_then_sine_first_entries [OF scenario_C_11025_ok(1,2) a(1,2)
      scenario_C_11025_chunks a(3,4) scenario_C_chunks(2,3)]
  obtain ts te where t: "first_start_time scenario_C_11025 = Some (Fin ts)"
    "first_end_time scenario_C_11025 = Some (Fin te)"
    "\<bar>ts - 5\<bar> \<le> 1 / 200" "\<bar>te - 1 / 5\<bar> \<le> 1 / 200"
    "printf_2f (Fin ts) = ''5.00''" "printf_2f (Fin te) = ''0.20''"
    by blast
  from t(1,2) scenario_C_11025_times have "ts = 2204 / 441" "te = 501 / 2450" by simp_all
  with t have c: "first_start_time scenario_C_11025 = Some (Fin (2204 / 441))"
    "first_end_time scenario_C_11025 = Some (Fin (501 / 2450))"
    "\<bar>(2204 / 441 :: rat) - 5\<bar> \<le> 1 / 200" "\<bar>(501 / 2450 :: rat) - 1 / 5\<bar> \<le> 1 / 200"
    "printf_2f (Fin (2204 / 441)) = ''5.00''" "printf_2f (Fin (501 / 2450)) = ''0.20''"
    by blast+
  note d = silence_then_sine_first_entries [OF scenario_C_ok(1,2) b(1,2)
      scenario_C_chunks(1) a(3,4) scenario_C_chunks(2,3)]
  from a b c d scenario_C_11025_ok(1,2) scenario_C_ok(1,2) scenario_C_11025_chunks
    scenario_C_chunks
  show ?thesis by blast
qed

text \<open>
  C2 as the specification states it puts the first MIXRAMP\_END entry at 5.10. On ten
  seconds at 44100 Hz, silent for five seconds and then at 7 dB, the first MIXRAMP\_END
  entry has time 0.20.
\<close>

theorem silence_then_sine_end_counterexample:
  "first_start_time scenario_C = Some (Fin 5) \<and>
   first_end_time scenario_C = Some (Fin (1 / 5)) \<and>
   printf_2f (Fin (1 / 5)) = ''0.20'' \<and>
   \<not> \<bar>(1 / 5 :: rat) - 51 / 10\<bar> \<le> 1 / 100"
proof -
  from run_succeeds [OF scenario_C_ok] obtain tb where run: "main_tables scenario_C = Inr tb"
    by blast
  have ne: "replicate 50 (Chunk True (Fin (- 7))) \<noteq> []" by simp
  note sl = silent_then_loud [OF run scenario_C_chunks(1) ne scenario_C_chunks(2,3)]
  have "first_start_time scenario_C = Some (Fin 5)"
    using sl(1) scenario_C_times(1) by simp
  moreover have "first_end_time scenario_C = Some (Fin (1 / 5))"
    using sl(2) scenario_C_times(2,3) by (simp add: d_sub_def)
  ultimately show ?thesis using printf_times(2) by simp
qed

text \<open>
  C3. For every ladder index i, if End row E[i] is set at the end of the scan, then
  E[i].observed\_db \<ge> L[i] and E[i].observed\_time equals T - t where t is the start time
  of the last chunk whose loudness \<ge> L[i], with T = n/r + 0.10 (the track length padded
  by one chunk duration).
\<close>

theorem end_row_last_chunk:
  assumes "main_tables e = Inr tb" and "i < points" and "end_set tb i"
  shows "d_ge (end_db tb ! i) (db ! i) \<and>
    (\<exists>j. j < length (chunks e) \<and> reaches i (chunks e ! j) \<and>
       (\<forall>j'. j < j' \<and> j' < length (chunks e) \<longrightarrow> \<not> reaches i (chunks e ! j')) \<and>
       end_db tb ! i = vol_of (chunks e ! j) \<and>
       end_time tb ! i =
         d_sub (d_add (d_div (Fin (of_int (afGetFrameCount e))) (afGetRate e)) (Fin (1 / 10)))
               (chunk_time e j))"
proof -
  from assms(3) end_facts(1) [OF assms(1,2)] obtain j where
    j: "last_index (reaches i) (chunks e) = Some j" by auto
  then have "j < length (chunks e)" "reaches i (chunks e ! j)"
    "\<forall>j'. j < j' \<and> j' < length (chunks e) \<longrightarrow> \<not> reaches i (chunks e ! j')"
    by (simp_all add: last_index_Some)
  moreover have "end_db tb ! i = vol_of (chunks e ! j)"
    "end_time tb ! i =
         d_sub (d_add (d_div (Fin (of_int (afGetFrameCount e))) (afGetRate e)) (Fin (1 / 10)))
               (chunk_time e j)"
    using end_facts(2) [OF assms(1,2) j]
    by (simp_all add: end_row_def track_length_def chunkSeconds_def)
  moreover have "d_ge (end_db tb ! i) (db ! i)"
    using end_db_not_nan [OF assms] by simp
  ultimately show ?thesis by blast
qed

theorem end_row_last_chunk_witness:
  "main_tables ex_env = Inr ex_tb3 \<and> (2 :: nat) < points \<and> end_set ex_tb3 2 \<and>
   d_ge (end_db ex_tb3 ! 2) (db ! 2) \<and>
   (\<exists>j. j < length (chunks ex_env) \<and> reaches 2 (chunks ex_env ! j) \<and>
       (\<forall>j'. j < j' \<and> j' < length (chunks ex_env) \<longrightarrow> \<not> reaches 2 (chunks ex_env ! j')) \<and>
       end_db ex_tb3 ! 2 = vol_of (chunks ex_env ! j) \<and>
       end_time ex_tb3 ! 2 =
         d_sub (d_add (d_div (Fin (of_int (afGetFrameCount ex_env))) (afGetRate ex_env))
                  (Fin (1 / 10)))
               (chunk_time ex_env j)) \<and>
   end_row ex_tb3 2 = (Fin 0, Fin (3 / 10))"
proof -
  have i: "(2 :: nat) < points" by (simp add: points_15)
  have s: "end_set ex_tb3 2" by (simp add: ex_tb3_def end_set_def)
  have r: "end_row ex_tb3 2 = (Fin 0, Fin (3 / 10))" by (simp add: ex_tb3_def end_row_def)
  from end_row_last_chunk [OF ex_tables i s] ex_tables i s r show ?thesis by blast
qed

text \<open>
  C4. For any two rows emitted in order in the MIXRAMP\_START body, (d1, t1) before
  (d2, t2), the dB values strictly increase (d2 > d1) and the times are non-decreasing
  (t2 \<ge> t1).
\<close>

theorem start_rows_monotone:
  assumes "main_tables e = Inr tb" and "i < j" and "j < length (start_rows tb)"
  shows "d_lt (fst (start_rows tb ! i)) (fst (start_rows tb ! j)) \<and>
         d_le (snd (start_rows tb ! i)) (snd (start_rows tb ! j))"
proof -
  have "sorted_wrt row_before (start_rows tb)"
    using assms(1) by (rule start_rows_sorted(1))
  with assms(2,3) have "row_before (start_rows tb ! i) (start_rows tb ! j)"
    by (simp add: sorted_wrt_iff_nth_less)
  then show ?thesis by (simp add: row_before_def)
qed

theorem start_rows_monotone_witness:
  "main_tables ex_env = Inr ex_tb3 \<and> (0 :: nat) < 1 \<and> 1 < length (start_rows ex_tb3) \<and>
   start_rows ex_tb3 = [(Fin (- 50), Fin 0), (Fin 0, Fin (1 / 10))] \<and>
   d_lt (fst (start_rows ex_tb3 ! 0)) (fst (start_rows ex_tb3 ! 1)) \<and>
   d_le (snd (start_rows ex_tb3 ! 0)) (snd (start_rows ex_tb3 ! 1))"
  using start_rows_monotone [of ex_env ex_tb3 0 1]
  by (simp add: ex_tables ex_start_rows)

text \<open>
  C5, as amended. For every supported sample rate r, the chunk size in samples used by
  the driver is the product 0.10 * r truncated to an integer; it equals round(0.10 * r)
  at every supported rate except r = 11025 Hz, where 1102.5 is truncated to 1102.
\<close>

theorem chunk_size_truncates:
  assumes "startup e = Inr (chunkSamples, sampleRate, len)" and "afGetRate e = Fin r"
  shows "r \<in> set supported_rates \<and> chunkSamples = \<lfloor>(1 / 10) * r\<rfloor> \<and>
    (chunkSamples = round ((1 / 10) * r) \<longleftrightarrow> r \<noteq> 11025)"
proof -
  from assms(1) obtain q where q: "afGetRate e = Fin q" "q \<in> set supported_rates"
    "chunkSamples = \<lfloor>q / 10\<rfloor>"
    by (rule startup_Inr)
  with assms(2) have r: "r \<in> set supported_rates" and k: "chunkSamples = \<lfloor>(1 / 10) * r\<rfloor>"
    by simp_all
  have "\<lfloor>(1 / 10) * r\<rfloor> = round ((1 / 10) * r) \<longleftrightarrow> r \<noteq> 11025"
    using r by (auto simp: supported_rates_def round_def floor_rat_numeral)
  with r k show ?thesis by simp
qed

theorem chunk_size_truncates_witness:
  "startup ex_env = Inr (800, Fin 8000, Fin (2 / 5)) \<and> afGetRate ex_env = Fin 8000 \<and>
   8000 \<in> set supported_rates \<and> (800 :: int) = \<lfloor>(1 / 10) * (8000 :: rat)\<rfloor> \<and>
   (800 :: int) = round ((1 / 10) * (8000 :: rat)) \<and> (8000 :: rat) \<noteq> 11025"
proof -
  have a: "afGetRate ex_env = Fin 8000" by (simp add: ex_env_def)
  from chunk_size_truncates [OF ex_startup a] ex_startup a show ?thesis by simp
qed

text \<open>
  C5 as the specification states it gives round(1102.5) = 1103 samples at 11025 Hz. The
  driver computes 1102.
\<close>

theorem chunk_size_round_counterexample:
  "map_sum id fst (startup (ex_env\<lparr> afGetRate := Fin 11025 \<rparr>)) = Inr 1102 \<and>
   round ((1 / 10) * (11025 :: rat)) = 1103"
  by (simp add: ex_env_def startup_def supported_rates_def chunkSeconds_def trunc_def
      track_length_def chunkSamples_of_def round_def floor_rat_numeral)

text \<open>
  C6. Once a Start row S[i] has been set it is never rewritten by any later chunk, and
  when set its observed\_db is \<ge> L[i] and its observed\_time is the start time of the first
  chunk whose loudness \<ge> L[i]; End rows, by contrast, are rewritten on every qualifying
  chunk. Here \<open>tb\<close> is the state after \<open>n\<close> chunks and \<open>tb'\<close> the state after \<open>m \<ge> n\<close>
  chunks, so that chunk \<open>m - 1\<close> is the last one \<open>tb'\<close> has seen.
\<close>

theorem start_rows_written_once:
  assumes "tables_after e n = Inr tb" and "tables_after e m = Inr tb'" and "n \<le> m"
    and "i < points"
  shows "(start_set tb i \<longrightarrow>
            start_row tb' i = start_row tb i \<and>
            d_ge (start_db tb ! i) (db ! i) \<and>
            (\<exists>j. j < n \<and> j < length (chunks e) \<and> reaches i (chunks e ! j) \<and>
               (\<forall>j' < j. \<not> reaches i (chunks e ! j')) \<and>
               start_db tb ! i = vol_of (chunks e ! j) \<and>
               start_time tb ! i = chunk_time e j)) \<and>
         (0 < m \<and> m \<le> length (chunks e) \<and> reaches i (chunks e ! (m - 1)) \<longrightarrow>
            end_row tb' i =
              (vol_of (chunks e ! (m - 1)),
               d_sub (track_length (afGetFrameCount e) (afGetRate e)) (chunk_time e (m - 1))))"
proof -
  let ?en = "e\<lparr> chunks := take n (chunks e) \<rparr>"
  let ?em = "e\<lparr> chunks := take m (chunks e) \<rparr>"
  have rn: "main_tables ?en = Inr tb" using assms(1) by (rule tables_after_env)
  have rm: "main_tables ?em = Inr tb'" using assms(2) by (rule tables_after_env)
  have i: "i < points" by fact
  have start: "start_row tb' i = start_row tb i \<and>
            d_ge (start_db tb ! i) (db ! i) \<and>
            (\<exists>j. j < n \<and> j < length (chunks e) \<and> reaches i (chunks e ! j) \<and>
               (\<forall>j' < j. \<not> reaches i (chunks e ! j')) \<and>
               start_db tb ! i = vol_of (chunks e ! j) \<and>
               start_time tb ! i = chunk_time e j)"
    if s: "start_set tb i"
  proof -
    from s start_facts(1) [OF rn i] obtain a where
      a: "first_index (reaches i) (take n (chunks e)) = Some a" by auto
    note fa = first_index_take [OF a assms(3)]
    have rowa: "start_row tb i = (vol_of (chunks e ! a), chunk_time e a)"
      using start_facts(2) [OF rn i, of a] a fa(2) by simp
    have am: "a < m" using fa(2) assms(3) by simp
    have "start_row tb' i = (vol_of (chunks e ! a), chunk_time e a)"
      using start_facts(2) [OF rm i, of a] fa(1) am by simp
    with rowa have "start_row tb' i = start_row tb i" by simp
    moreover have "d_ge (start_db tb ! i) (db ! i)"
      using start_db_not_nan [OF rn i s] by simp
    moreover have "start_db tb ! i = vol_of (chunks e ! a)" "start_time tb ! i = chunk_time e a"
      using rowa by (simp_all add: start_row_def)
    ultimately show ?thesis using fa(2-5) by blast
  qed
  have "end_row tb' i =
              (vol_of (chunks e ! (m - 1)),
               d_sub (track_length (afGetFrameCount e) (afGetRate e)) (chunk_time e (m - 1)))"
    if m: "0 < m" "m \<le> length (chunks e)" and r: "reaches i (chunks e ! (m - 1))"
  proof -
    from m have m1: "m - 1 < length (chunks e)" "Suc (m - 1) = m" by simp_all
    have "last_index (reaches i) (take m (chunks e)) = Some (m - 1)"
      using last_index_take_Suc [OF m1(1), of "reaches i"] r m1(2) by simp
    then show ?thesis
      using end_facts(2) [OF rm i, of "m - 1"] m1 by simp
  qed
  with start show ?thesis by blast
qed

theorem start_rows_written_once_witness:
  "tables_after ex_env 2 = Inr ex_tb2 \<and> tables_after ex_env 3 = Inr ex_tb3 \<and>
   (2 :: nat) \<le> 3 \<and> (0 :: nat) < points \<and> start_set ex_tb2 0 \<and>
   start_row ex_tb3 0 = start_row ex_tb2 0 \<and> start_row ex_tb2 0 = (Fin (- 50), Fin 0) \<and>
   d_ge (start_db ex_tb2 ! 0) (db ! 0) \<and>
   (\<exists>j. j < 2 \<and> j < length (chunks ex_env) \<and> reaches 0 (chunks ex_env ! j) \<and>
      (\<forall>j' < j. \<not> reaches 0 (chunks ex_env ! j')) \<and>
      start_db ex_tb2 ! 0 = vol_of (chunks ex_env ! j) \<and>
      start_time ex_tb2 ! 0 = chunk_time ex_env j) \<and>
   (0 :: nat) < 3 \<and> 3 \<le> length (chunks ex_env) \<and> reaches 0 (chunks ex_env ! (3 - 1)) \<and>
   end_row ex_tb2 0 = (Fin 0, Fin (3 / 10)) \<and>
   end_row ex_tb3 0 =
     (vol_of (chunks ex_env ! (3 - 1)),
      d_sub (track_length (afGetFrameCount ex_env) (afGetRate ex_env))
        (chunk_time ex_env (3 - 1))) \<and>
   end_row ex_tb3 0 = (Fin (- 50), Fin (1 / 5))"
proof -
  have a: "(2 :: nat) \<le> 3" "(0 :: nat) < points" "(0 :: nat) < 3"
    by (simp_all add: points_15)
  have s: "start_set ex_tb2 0" by (simp add: ex_tb2_def start_set_def)
  have l: "3 \<le> length (chunks ex_env)" by (simp add: ex_env_def)
  have r: "reaches 0 (chunks ex_env ! (3 - 1))"
    by (simp add: ex_env_def reaches_def vol_of_def d_ge_def db_def)
  have rows: "start_row ex_tb2 0 = (Fin (- 50), Fin 0)"
    "end_row ex_tb2 0 = (Fin 0, Fin (3 / 10))" "end_row ex_tb3 0 = (Fin (- 50), Fin (1 / 5))"
    by (simp_all add: ex_tb2_def ex_tb3_def start_row_def end_row_def)
  from start_rows_written_once [OF ex_after2 ex_after3 a(1,2)] ex_after2 ex_after3 a s l r rows
  show ?thesis by blast
qed

text \<open>
  C7. If every chunk's loudness is strictly below L[0] = -90 dB, or the track is shorter
  than one chunk so that no chunk is processed at all, both the MIXRAMP\_START and
  MIXRAMP\_END body strings are empty while the three output lines (REF, START, END) are
  still emitted. The run is one that reaches \<^verbatim>\<open>dumpRamps\<close>.
\<close>

theorem silent_input_empty_bodies:
  assumes "main_tables e = Inr tb"
    and "list_all (\<lambda>c. d_lt (vol_of c) (Fin (- 90))) (chunks e) \<or> chunks e = []"
  shows "main e =
    (''MIXRAMP_REF=89.00'' @ newline @ ''MIXRAMP_START='' @ newline @
     ''MIXRAMP_END='' @ newline, Exit 0)"
proof -
  from assms(2) have silent: "\<forall>c \<in> set (chunks e). d_lt (vol_of c) (Fin (- 90))"
    by (auto simp: list_all_iff)
  have none: "\<forall>x \<in> set (chunks e). \<not> reaches i x" if "i < points" for i
    using silent silent_no_reach that by blast
  have "\<not> start_set tb i" if "i < points" for i
    using start_facts(1) [OF assms(1) that] none [OF that] by (simp add: first_index_None)
  then have "set (start_rows tb) = {}"
    using start_rows_sorted(2) [OF assms(1)] by auto
  then have s: "start_rows tb = []" by simp
  have "\<not> end_set tb i" if "i < points" for i
    using end_facts(1) [OF assms(1) that] none [OF that] by (simp add: last_index_None)
  then have "set (end_rows tb) = {}"
    using end_rows_sorted(2) [OF assms(1)] by auto
  then have e: "end_rows tb = []" by simp
  from main_tables_main [OF assms(1)] show ?thesis
    by (simp add: dumpRamps_def s e)
qed

theorem silent_input_empty_bodies_witness:
  "main_tables (ex_env\<lparr> chunks := [Chunk True (Fin 100)] \<rparr>) = Inr initial \<and>
   list_all (\<lambda>c. d_lt (vol_of c) (Fin (- 90))) (chunks (ex_env\<lparr> chunks := [Chunk True (Fin 100)] \<rparr>)) \<and>
   main (ex_env\<lparr> chunks := [Chunk True (Fin 100)] \<rparr>) =
     (''MIXRAMP_REF=89.00'' @ newline @ ''MIXRAMP_START='' @ newline @
      ''MIXRAMP_END='' @ newline, Exit 0) \<and>
   main_tables (ex_env\<lparr> chunks := [] \<rparr>) = Inr initial \<and>
   chunks (ex_env\<lparr> chunks := [] \<rparr>) = [] \<and>
   main (ex_env\<lparr> chunks := [] \<rparr>) =
     (''MIXRAMP_REF=89.00'' @ newline @ ''MIXRAMP_START='' @ newline @
      ''MIXRAMP_END='' @ newline, Exit 0)"
proof -
  have a: "list_all (\<lambda>c. d_lt (vol_of c) (Fin (- 90)))
      (chunks (ex_env\<lparr> chunks := [Chunk True (Fin 100)] \<rparr>))"
    by (simp add: vol_of_def)
  have b: "chunks (ex_env\<lparr> chunks := [] \<rparr>) = []" by simp
  from silent_input_empty_bodies [OF ex_silent_tables disjI1, OF a]
    silent_input_empty_bodies [OF ex_empty_tables disjI2, OF b]
    a b ex_silent_tables ex_empty_tables
  show ?thesis by blast
qed

text \<open>
  C8. On every successful run, standard output consists of exactly three
  newline-terminated lines in the order REF, START, END, and the first line is exactly
  \<^verbatim>\<open>MIXRAMP_REF=89.00\<close> regardless of input; each emitted body row is formatted as the dB
  value and the time with two fractional digits, separated by one space and followed by
  a semicolon with no space before it. A successful run is one that reaches
  \<^verbatim>\<open>dumpRamps\<close> and \<^verbatim>\<open>exit(0)\<close>.
\<close>

theorem output_three_lines:
  assumes "main_tables e = Inr tb"
  shows "main e =
      (''MIXRAMP_REF=89.00'' @ newline @
       ''MIXRAMP_START='' @ concat (map printf_row (start_rows tb)) @ newline @
       ''MIXRAMP_END='' @ concat (map printf_row (end_rows tb)) @ newline, Exit 0) \<and>
    length (filter (\<lambda>c. [c] = newline) (fst (main e))) = 3 \<and>
    (\<forall>r \<in> set (start_rows tb) \<union> set (end_rows tb).
       printf_row r = printf_2f (fst r) @ '' '' @ printf_2f (snd r) @ '';'' \<and>
       two_decimals (printf_2f (fst r)) \<and> two_decimals (printf_2f (snd r)))"
proof -
  have out: "main e =
      (''MIXRAMP_REF=89.00'' @ newline @
       ''MIXRAMP_START='' @ concat (map printf_row (start_rows tb)) @ newline @
       ''MIXRAMP_END='' @ concat (map printf_row (end_rows tb)) @ newline, Exit 0)"
    using main_tables_main [OF assms] by (simp add: dumpRamps_def)
  have fin: "\<exists>a b. r = (Fin a, Fin b)" if "r \<in> set (start_rows tb) \<union> set (end_rows tb)" for r
    using rows_finite [OF assms that] .
  have s: "filter (\<lambda>c. [c] = newline) (concat (map printf_row (start_rows tb))) = []"
    by (rule body_no_newline) (use fin in blast)
  have e: "filter (\<lambda>c. [c] = newline) (concat (map printf_row (end_rows tb))) = []"
    by (rule body_no_newline) (use fin in blast)
  have count: "length (filter (\<lambda>c. [c] = newline) (fst (main e))) = 3"
    unfolding out fst_conv filter_append s e by (simp add: newline_def)
  have "printf_row r = printf_2f (fst r) @ '' '' @ printf_2f (snd r) @ '';'' \<and>
       two_decimals (printf_2f (fst r)) \<and> two_decimals (printf_2f (snd r))"
    if "r \<in> set (start_rows tb) \<union> set (end_rows tb)" for r
  proof -
    from fin [OF that] obtain a b where "r = (Fin a, Fin b)" by blast
    then show ?thesis
      using two_decimals_printf [of a] two_decimals_printf [of b]
      by (simp add: printf_row_def del: printf_2f.simps)
  qed
  with out count show ?thesis by blast
qed

theorem output_three_lines_witness:
  "main_tables ex_env = Inr ex_tb3 \<and>
   main ex_env =
      (''MIXRAMP_REF=89.00'' @ newline @
       ''MIXRAMP_START=-50.00 0.00;0.00 0.10;'' @ newline @
       ''MIXRAMP_END=-50.00 0.20;0.00 0.30;'' @ newline, Exit 0) \<and>
   length (filter (\<lambda>c. [c] = newline) (fst (main ex_env))) = 3 \<and>
   printf_row (Fin (- 50), Fin (1 / 5)) = ''-50.00 0.20;'' \<and>
   two_decimals ''-50.00'' \<and> two_decimals ''0.20''"
proof -
  note th = output_three_lines [OF ex_tables]
  have m: "main ex_env =
      (''MIXRAMP_REF=89.00'' @ newline @
       ''MIXRAMP_START=-50.00 0.00;0.00 0.10;'' @ newline @
       ''MIXRAMP_END=-50.00 0.20;0.00 0.30;'' @ newline, Exit 0)"
    using th ex_dump by (simp add: dumpRamps_def)
  have r: "(Fin (- 50), Fin (1 / 5)) \<in> set (start_rows ex_tb3) \<union> set (end_rows ex_tb3)"
    by (simp add: ex_end_rows)
  from th have "\<forall>r \<in> set (start_rows ex_tb3) \<union> set (end_rows ex_tb3).
       printf_row r = printf_2f (fst r) @ '' '' @ printf_2f (snd r) @ '';'' \<and>
       two_decimals (printf_2f (fst r)) \<and> two_decimals (printf_2f (snd r))"
    by blast
  from bspec [OF this r] have "printf_row (Fin (- 50), Fin (1 / 5)) =
      printf_2f (Fin (- 50)) @ '' '' @ printf_2f (Fin (1 / 5)) @ '';'' \<and>
    two_decimals (printf_2f (Fin (- 50))) \<and> two_decimals (printf_2f (Fin (1 / 5)))"
    by (simp only: fst_conv snd_conv)
  then have f: "printf_row (Fin (- 50), Fin (1 / 5)) = ''-50.00 0.20;''"
    "two_decimals ''-50.00''" "two_decimals ''0.20''"
    by (simp_all add: ex_printf del: printf_2f.simps)
  from th m f ex_tables show ?thesis by blast
qed


text \<open>
  C10. At every point during and after the chunk scan, set-ness of both tables is
  downward closed along the ladder: for all indices i < j, if S[j] is set then S[i] is
  set with S[i].observed\_time \<le> S[j].observed\_time, and if E[j] is set then E[i] is
  set with E[i].observed\_time \<le> E[j].observed\_time. The points of the scan are those
  of \<open>scan_point\<close>: between two chunks, inside either loop of \<^verbatim>\<open>analyzeChunk\<close>, and
  after the last chunk.
\<close>

theorem ladder_downward_closed:
  assumes run: "main_tables e = Inr tbf" and pt: "scan_point e n m1 m2 = Inr tb"
    and ij: "i < j" "j < points"
  shows "(start_set tb j \<longrightarrow> start_set tb i \<and> d_le (start_time tb ! i) (start_time tb ! j)) \<and>
         (end_set tb j \<longrightarrow> end_set tb i \<and> d_le (end_time tb ! i) (end_time tb ! j))"
proof -
  from pt obtain tb0 where tb0: "tables_after e n = Inr tb0"
    by (auto simp: scan_point_def split: sum.splits)
  have old_s: "start_set tb0 j \<Longrightarrow> start_set tb0 i \<and> d_le (start_time tb0 ! i) (start_time tb0 ! j)"
    using between_start [OF tb0 ij] .
  have old_e: "end_set tb0 j \<Longrightarrow> end_set tb0 i \<and> d_le (end_time tb0 ! i) (end_time tb0 ! j)"
    using between_end [OF tb0 ij] .
  show ?thesis
  proof (cases "n < length (chunks e)")
    case False
    with pt tb0 have "tb = tb0" by (simp add: scan_point_def)
    with old_s old_e show ?thesis by simp
  next
    case True
    let ?c = "chunks e ! n"
    let ?t = "chunk_time e n"
    let ?T = "track_length (afGetFrameCount e) (afGetRate e)"
    let ?mid = "fold (start_step (vol_of ?c) ?t) [0..<m1] tb0"
    have tb: "tb = fold (end_step (vol_of ?c) ?t ?T) [0..<m2] ?mid"
      using pt tb0 True by (simp add: scan_point_def)
    have wf0: "wf_tables tb0"
      using run_rows [OF tables_after_env [OF tb0]] by simp
    have i: "i < points" using ij by simp
    have tn: "\<not> isnan ?t" "\<not> isnan (d_sub ?T ?t)"
      using chunk_time_not_nan [OF run True] by simp_all
    have st: "start_time tb ! x =
        (if x < m1 \<and> isnan (start_time tb0 ! x) \<and> reaches x ?c then ?t else start_time tb0 ! x)"
      if "x < points" for x
      using that wf0 fold_start_step_nth [of x tb0 "vol_of ?c" ?t m1]
      by (simp add: tb fold_end_step_other wf_tables_def reaches_def)
    have et: "end_time tb ! x =
        (if x < m2 \<and> reaches x ?c then d_sub ?T ?t else end_time tb0 ! x)"
      if "x < points" for x
      using that wf0 fold_end_step_nth [of x ?mid "vol_of ?c" ?t ?T m2]
      by (simp add: tb fold_start_step_other wf_tables_def reaches_def)
    have down: "reaches j ?c \<Longrightarrow> reaches i ?c"
      using reaches_down [of i j ?c] ij by simp
    have "start_set tb i \<and> d_le (start_time tb ! i) (start_time tb ! j)" if s: "start_set tb j"
    proof (cases "j < m1 \<and> isnan (start_time tb0 ! j) \<and> reaches j ?c")
      case new: True
      then have tj: "start_time tb ! j = ?t" using st [OF ij(2)] by simp
      show ?thesis
      proof (cases "isnan (start_time tb0 ! i)")
        case True
        with new ij down have "start_time tb ! i = ?t" using st [OF i] by simp
        with tj tn show ?thesis by (simp add: start_set_def d_le_refl)
      next
        case False
        then have "start_time tb ! i = start_time tb0 ! i" using st [OF i] by simp
        moreover have "d_le (start_time tb0 ! i) ?t"
          using earlier_times(1) [OF run True tb0 i] False by (simp add: start_set_def)
        ultimately show ?thesis using tj False by (simp add: start_set_def)
      qed
    next
      case old: False
      then have tj: "start_time tb ! j = start_time tb0 ! j" using st [OF ij(2)] by auto
      with s have "start_set tb0 j" by (simp add: start_set_def)
      from old_s [OF this] have si: "\<not> isnan (start_time tb0 ! i)"
        and le: "d_le (start_time tb0 ! i) (start_time tb0 ! j)"
        by (simp_all add: start_set_def)
      from si have "start_time tb ! i = start_time tb0 ! i" using st [OF i] by simp
      with tj si le show ?thesis by (simp add: start_set_def)
    qed
    moreover
    have "end_set tb i \<and> d_le (end_time tb ! i) (end_time tb ! j)" if s: "end_set tb j"
    proof (cases "j < m2 \<and> reaches j ?c")
      case new: True
      then have tj: "end_time tb ! j = d_sub ?T ?t" using et [OF ij(2)] by simp
      from new ij down have "end_time tb ! i = d_sub ?T ?t" using et [OF i] by simp
      with tj tn show ?thesis by (simp add: end_set_def d_le_refl)
    next
      case old: False
      then have tj: "end_time tb ! j = end_time tb0 ! j" using et [OF ij(2)] by auto
      with s have sj: "end_set tb0 j" by (simp add: end_set_def)
      from old_e [OF sj] have si: "end_set tb0 i"
        and le: "d_le (end_time tb0 ! i) (end_time tb0 ! j)"
        by simp_all
      show ?thesis
      proof (cases "i < m2 \<and> reaches i ?c")
        case True
        then have ti: "end_time tb ! i = d_sub ?T ?t" using et [OF i] by simp
        have "d_le (d_sub ?T ?t) (end_time tb0 ! j)"
          using earlier_times(2) [OF run \<open>n < length (chunks e)\<close> tb0 ij(2) sj] .
        with ti tj tn show ?thesis by (simp add: end_set_def)
      next
        case False
        then have "end_time tb ! i = end_time tb0 ! i" using et [OF i] by auto
        with tj si le show ?thesis by (simp add: end_set_def)
      qed
    qed
    ultimately show ?thesis by blast
  qed
qed

theorem ladder_downward_closed_witness:
  "main_tables ex_env = Inr ex_tb3 \<and> scan_point ex_env 2 15 1 = Inr ex_mid \<and>
   (0 :: nat) < 2 \<and> 2 < points \<and>
   start_set ex_mid 2 \<and> start_set ex_mid 0 \<and>
   d_le (start_time ex_mid ! 0) (start_time ex_mid ! 2) \<and>
   end_set ex_mid 2 \<and> end_set ex_mid 0 \<and>
   d_le (end_time ex_mid ! 0) (end_time ex_mid ! 2)"
proof -
  have ij: "(0 :: nat) < 2" "2 < points" by (simp_all add: points_15)
  have s: "start_set ex_mid 2" "end_set ex_mid 2"
    by (simp_all add: ex_mid_def start_set_def end_set_def)
  from ladder_downward_closed [OF ex_tables ex_scan_point ij] s ij ex_tables ex_scan_point
  show ?thesis by blast
qed

end
